theory Spec2Isabelle
  imports Main "HOL-Library.Word" "HOL-Library.Monad_Syntax"
begin

unbundle bit_operations_syntax

section \<open>Configuration taken from the header file\<close>

text \<open>
  The source includes \<open>lab.h\<close>, which declares \<open>struct avail\<close>, \<open>struct buddy_pool\<close> and
  the constants \<open>SMALLEST_K\<close>, \<open>MIN_K\<close>, \<open>DEFAULT_K\<close> and \<open>MAX_K\<close>. The functions of
  \<open>lab.c\<close> use them only through \<open>sizeof(struct avail)\<close> and the four constants, so these
  five numbers are parameters of the model.
\<close>

record cfg =
  hdr :: nat          \<comment> \<open>\<open>sizeof(struct avail)\<close>\<close>
  SMALLEST_K :: nat
  MIN_K :: nat
  DEFAULT_K :: nat
  MAX_K :: nat

text \<open>
  What the code relies on: a header is not empty and is smaller than the smallest block, no
  pool is smaller than the smallest block, the order table \<open>avail[MAX_K]\<close> has room for the
  pool orders that \<open>buddy_init\<close> can choose, and every order is a legal shift count of a
  64-bit \<open>size_t\<close>.
\<close>

definition cfg_ok :: "cfg \<Rightarrow> bool" where
  "cfg_ok c \<longleftrightarrow>
     0 < hdr c \<and> hdr c < 2 ^ SMALLEST_K c \<and>
     SMALLEST_K c \<le> MIN_K c \<and> MIN_K c < MAX_K c \<and>
     SMALLEST_K c \<le> DEFAULT_K c \<and> DEFAULT_K c < MAX_K c \<and> MAX_K c \<le> 64"

text \<open>A configuration for the concrete runs: an LP64 header of 24 bytes.\<close>

definition cfg0 :: cfg where
  "cfg0 = \<lparr> hdr = 24, SMALLEST_K = 6, MIN_K = 20, DEFAULT_K = 30, MAX_K = 48 \<rparr>"

section \<open>Order calculator\<close>

text \<open>
  \<open>while (temp >>= 1) k++;\<close> on a 64-bit \<open>temp\<close>. The counter stays below 64, so a \<open>nat\<close>
  carries it without wrap-around.
\<close>

function btok_loop :: "64 word \<Rightarrow> nat \<Rightarrow> nat" where
  "btok_loop temp k =
     (let temp' = drop_bit 1 temp in
      if temp' \<noteq> 0 then btok_loop temp' (k + 1) else k)"
  by pat_completeness auto
termination
proof (relation "measure (\<lambda>(temp, k). unat temp)")
  show "wf (measure (\<lambda>(temp, k). unat temp))" by simp
next
  fix temp :: "64 word" and k :: nat and x :: "64 word"
  assume x: "x = drop_bit 1 temp" and nz: "x \<noteq> 0"
  have "unat x = unat temp div 2"
    by (simp add: x drop_bit_eq_div unat_div)
  moreover have "unat x \<noteq> 0"
    using nz by (simp add: unat_eq_0)
  ultimately have "unat x < unat temp" by linarith
  then show "((x, k + 1), temp, k) \<in> measure (\<lambda>(temp, k). unat temp)" by simp
qed

declare btok_loop.simps [simp del]

definition btok :: "cfg \<Rightarrow> 64 word \<Rightarrow> nat" where
  "btok c bytes =
     (if bytes = 0 then 0
      else
        let bytes' = bytes + of_nat (hdr c);
            temp = bytes' - 1;
            k = btok_loop temp 0 + 1;
            k = (if k < SMALLEST_K c then SMALLEST_K c else k);
            k = (if k \<ge> MAX_K c then MAX_K c - 1 else k)
        in k)"

section \<open>Block headers, the pool and the store\<close>

text \<open>
  The three states of a header (\<open>BLOCK_AVAIL\<close>, \<open>BLOCK_RESERVED\<close>, \<open>BLOCK_UNUSED\<close>), as the
  source names them.
\<close>

datatype tag = BLOCK_AVAIL | BLOCK_RESERVED | BLOCK_UNUSED

text \<open>
  A \<open>struct avail *\<close> is either the address of a list head inside the pool structure,
  \<open>&pool->avail[i]\<close>, or a numeric address; \<open>Addr 0\<close> is the null pointer. The pool
  structure lies outside the mapped arena, so the two kinds never alias.
\<close>

datatype ptr = Sent nat | Addr "64 word"

record avail =
  tag :: tag
  kval :: nat
  "next" :: ptr
  prev :: ptr

text \<open>
  The scalar fields of \<open>struct buddy_pool\<close>. The array \<open>avail[MAX_K]\<close> lives in the store
  below, at the pointers \<open>Sent i\<close>.
\<close>

record buddy_pool =
  kval_m :: nat
  numbytes :: "64 word"
  base :: "64 word"

datatype os_call = Mmap "64 word" | Munmap "64 word" "64 word" | Perror

text \<open>
  The machine state the functions run in: the pool, the headers by pointer, the bytes of the
  arena by address, \<open>errno\<close>, and the system calls made so far.
\<close>

record machine = buddy_pool +
  heap :: "ptr \<Rightarrow> avail"
  bytes :: "64 word \<Rightarrow> 8 word"
  errno :: int
  oscalls :: "os_call list"

text \<open>The \<open>pool\<close> argument of the public functions: null, or the address of the pool.\<close>

datatype pool_ptr = NULL_pool | Pool

datatype mmap_result = MAP_FAILED | Mapped "64 word"

definition ENOMEM :: int where
  "ENOMEM = 12"

text \<open>
  A header at address \<open>a\<close> can be read or written when the arena is mapped and the header
  lies inside it. Everything else is undefined behaviour, which the model reports as \<open>None\<close>.
\<close>

definition in_arena :: "cfg \<Rightarrow> machine \<Rightarrow> 64 word \<Rightarrow> bool" where
  "in_arena c st a \<longleftrightarrow> base st \<noteq> 0 \<and> unat (a - base st) + hdr c \<le> unat (numbytes st)"

definition valid :: "cfg \<Rightarrow> machine \<Rightarrow> ptr \<Rightarrow> bool" where
  "valid c st p = (case p of Sent i \<Rightarrow> i < MAX_K c | Addr a \<Rightarrow> in_arena c st a)"

definition rd :: "cfg \<Rightarrow> machine \<Rightarrow> ptr \<Rightarrow> avail option" where
  "rd c st p = (if valid c st p then Some (heap st p) else None)"

definition wr :: "cfg \<Rightarrow> machine \<Rightarrow> ptr \<Rightarrow> (avail \<Rightarrow> avail) \<Rightarrow> machine option" where
  "wr c st p f = (if valid c st p then Some (st\<lparr>heap := (heap st)(p := f (heap st p))\<rparr>) else None)"

text \<open>\<open>1UL << n\<close>; a shift by 64 or more is undefined.\<close>

definition shl1 :: "nat \<Rightarrow> 64 word option" where
  "shl1 n = (if n < 64 then Some (push_bit n 1) else None)"

section \<open>Buddy address\<close>

definition buddy_calc :: "cfg \<Rightarrow> machine \<Rightarrow> 64 word \<Rightarrow> 64 word option" where
  "buddy_calc c st block = do {
     b \<leftarrow> rd c st (Addr block);
     let offset = block - base st;
     s \<leftarrow> shl1 (kval b);
     let buddy_offset = offset XOR s;
     Some (base st + buddy_offset)
   }"

section \<open>List surgery\<close>

text \<open>
  The two statements that take a node out of its list
  (\<open>p->prev->next = p->next; p->next->prev = p->prev;\<close>), written inline in
  \<open>buddy_malloc\<close> for the block and in \<open>buddy_free\<close> for the buddy.
\<close>

definition unlink :: "cfg \<Rightarrow> machine \<Rightarrow> ptr \<Rightarrow> machine option" where
  "unlink c st p = do {
     b \<leftarrow> rd c st p;
     st \<leftarrow> wr c st (prev b) (\<lambda>h. h\<lparr>next := next b\<rparr>);
     b \<leftarrow> rd c st p;
     wr c st (next b) (\<lambda>h. h\<lparr>prev := prev b\<rparr>)
   }"

text \<open>
  The four statements that put a node at the head of list \<open>i\<close>
  (\<open>p->next = avail[i].next; p->prev = &avail[i]; avail[i].next->prev = p; avail[i].next = p;\<close>),
  written inline in \<open>buddy_malloc\<close> for each split-off buddy and at the end of \<open>buddy_free\<close>.
\<close>

definition push_front :: "cfg \<Rightarrow> machine \<Rightarrow> nat \<Rightarrow> ptr \<Rightarrow> machine option" where
  "push_front c st i p = do {
     s \<leftarrow> rd c st (Sent i);
     st \<leftarrow> wr c st p (\<lambda>h. h\<lparr>next := next s\<rparr>);
     st \<leftarrow> wr c st p (\<lambda>h. h\<lparr>prev := Sent i\<rparr>);
     s \<leftarrow> rd c st (Sent i);
     st \<leftarrow> wr c st (next s) (\<lambda>h. h\<lparr>prev := p\<rparr>);
     wr c st (Sent i) (\<lambda>h. h\<lparr>next := p\<rparr>)
   }"

section \<open>Allocation\<close>

text \<open>
  \<open>for (i = k; i <= pool->kval_m; i++) if (pool->avail[i].next != &pool->avail[i]) break;\<close>
  The result is the value of \<open>i\<close> after the loop.
\<close>

function find_avail :: "cfg \<Rightarrow> machine \<Rightarrow> nat \<Rightarrow> nat option" where
  "find_avail c st i =
     (if i \<le> kval_m st then
        (case rd c st (Sent i) of
           None \<Rightarrow> None
         | Some s \<Rightarrow> if next s \<noteq> Sent i then Some i else find_avail c st (i + 1))
      else Some i)"
  by pat_completeness auto
termination
  by (relation "measure (\<lambda>(c, st, i). kval_m st + 1 - i)") auto

declare find_avail.simps [simp del]

text \<open>The splitting loop \<open>while (i > k)\<close>; \<open>block\<close> is not changed by it.\<close>

function split_loop :: "cfg \<Rightarrow> machine \<Rightarrow> 64 word \<Rightarrow> nat \<Rightarrow> nat \<Rightarrow> machine option" where
  "split_loop c st block i k =
     (if i > k then
        (case shl1 (i - 1) of
           None \<Rightarrow> None
         | Some split_size \<Rightarrow>
            (case wr c st (Addr (block + split_size)) (\<lambda>h. h\<lparr>tag := BLOCK_AVAIL\<rparr>) of
               None \<Rightarrow> None
             | Some st1 \<Rightarrow>
                (case wr c st1 (Addr (block + split_size)) (\<lambda>h. h\<lparr>kval := i - 1\<rparr>) of
                   None \<Rightarrow> None
                 | Some st2 \<Rightarrow>
                    (case push_front c st2 (i - 1) (Addr (block + split_size)) of
                       None \<Rightarrow> None
                     | Some st3 \<Rightarrow> split_loop c st3 block (i - 1) k))))
      else Some st)"
  by pat_completeness auto
termination
  by (relation "measure (\<lambda>(c, st, block, i, k). i)") auto

declare split_loop.simps [simp del]

definition buddy_malloc :: "cfg \<Rightarrow> pool_ptr \<Rightarrow> machine \<Rightarrow> 64 word \<Rightarrow> (64 word \<times> machine) option" where
  "buddy_malloc c pool st sz =
     (if pool = NULL_pool \<or> sz = 0 then Some (0, st)
      else
        let k = btok c sz in
        if k > kval_m st then Some (0, st\<lparr>errno := ENOMEM\<rparr>)
        else do {
          i \<leftarrow> find_avail c st k;
          if i > kval_m st then Some (0, st\<lparr>errno := ENOMEM\<rparr>)
          else do {
            s \<leftarrow> rd c st (Sent i);
            case next s of
              Sent j \<Rightarrow> None
            | Addr block \<Rightarrow> do {
                st \<leftarrow> unlink c st (Addr block);
                st \<leftarrow> split_loop c st block i k;
                st \<leftarrow> wr c st (Addr block) (\<lambda>h. h\<lparr>tag := BLOCK_RESERVED\<rparr>);
                st \<leftarrow> wr c st (Addr block) (\<lambda>h. h\<lparr>kval := k\<rparr>);
                Some (block + of_nat (hdr c), st)
              }
          }
        })"

section \<open>Release\<close>

text \<open>
  The coalescing loop \<open>while (k < pool->kval_m)\<close>. It returns the state, the surviving block
  and its order \<open>k\<close> as they are when the loop is left.
\<close>

function coalesce :: "cfg \<Rightarrow> machine \<Rightarrow> 64 word \<Rightarrow> nat \<Rightarrow> (machine \<times> 64 word \<times> nat) option" where
  "coalesce c st block k =
     (if k < kval_m st then
        (case buddy_calc c st block of
           None \<Rightarrow> None
         | Some buddy \<Rightarrow>
            (case rd c st (Addr buddy) of
               None \<Rightarrow> None
             | Some bh \<Rightarrow>
                if tag bh \<noteq> BLOCK_AVAIL \<or> kval bh \<noteq> k then Some (st, block, k)
                else
                  (case unlink c st (Addr buddy) of
                     None \<Rightarrow> None
                   | Some st1 \<Rightarrow>
                      let block' = (if block > buddy then buddy else block) in
                      (case wr c st1 (Addr block') (\<lambda>h. h\<lparr>kval := k + 1\<rparr>) of
                         None \<Rightarrow> None
                       | Some st2 \<Rightarrow> coalesce c st2 block' (k + 1)))))
      else Some (st, block, k))"
  by pat_completeness auto
termination
proof (relation "measure (\<lambda>(c, st, block, k). kval_m st - k)")
  show "wf (measure (\<lambda>(c, st, block, k). kval_m st - k))" by simp
next
  fix c st block k buddy bh st1 block' st2
  assume k: "k < kval_m st"
    and u: "unlink c st (Addr buddy) = Some st1"
    and w: "wr c st1 (Addr block') (\<lambda>h. h\<lparr>kval := k + 1\<rparr>) = Some st2"
  have "kval_m st1 = kval_m st"
    using u by (auto simp: unlink_def wr_def rd_def split: if_splits Option.bind_splits)
  moreover have "kval_m st2 = kval_m st1"
    using w by (auto simp: wr_def split: if_splits)
  ultimately show "((c, st2, block', k + 1), c, st, block, k) \<in> measure (\<lambda>(c, st, block, k). kval_m st - k)"
    using k by simp
qed

declare coalesce.simps [simp del]

definition buddy_free :: "cfg \<Rightarrow> pool_ptr \<Rightarrow> machine \<Rightarrow> 64 word \<Rightarrow> machine option" where
  "buddy_free c pool st ptr =
     (if pool = NULL_pool \<or> ptr = 0 then Some st
      else do {
        let block = ptr - of_nat (hdr c);
        b \<leftarrow> rd c st (Addr block);
        let k = kval b;
        st \<leftarrow> wr c st (Addr block) (\<lambda>h. h\<lparr>tag := BLOCK_AVAIL\<rparr>);
        (st, block, k) \<leftarrow> coalesce c st block k;
        push_front c st k (Addr block)
      })"

section \<open>Resize\<close>

text \<open>
  \<open>memcpy(dst, src, n)\<close> copies \<open>n\<close> bytes inside the mapped arena. Both ranges have to lie
  in the arena, and they must not overlap: otherwise the behaviour is undefined.

  The arena is the memory that holds the block headers too, so the copy also replaces every
  header that has a byte in the destination range. A header that lies in the range takes the
  value of the header at the same distance from \<open>src\<close>. A header that lies in the range only
  in part is a mixture of old and new bytes, whose value depends on the layout of
  \<open>struct avail\<close> in \<open>lab.h\<close>; it is replaced in the same way. In the copies that
  \<open>buddy_realloc\<close> makes in a well-formed arena no header of a block is in that position.
  The list heads are in the pool structure, outside the arena, and keep their value.
\<close>

definition in_range :: "machine \<Rightarrow> 64 word \<Rightarrow> 64 word \<Rightarrow> bool" where
  "in_range st a n \<longleftrightarrow> base st \<noteq> 0 \<and> unat (a - base st) + unat n \<le> unat (numbytes st)"

definition memcpy :: "cfg \<Rightarrow> machine \<Rightarrow> 64 word \<Rightarrow> 64 word \<Rightarrow> 64 word \<Rightarrow> machine option" where
  "memcpy c st dst src n =
     (if in_range st dst n \<and> in_range st src n \<and> \<not> dst - src < n \<and> \<not> src - dst < n then
        Some (st\<lparr>bytes := (\<lambda>a. if a - dst < n then bytes st (src + (a - dst)) else bytes st a),
                 heap := (\<lambda>p. case p of
                            Sent i \<Rightarrow> heap st p
                          | Addr a \<Rightarrow>
                              if \<exists>i<hdr c. a + of_nat i - dst < n
                              then heap st (Addr (src + (a - dst)))
                              else heap st p)\<rparr>)
      else None)"

definition buddy_realloc :: "cfg \<Rightarrow> pool_ptr \<Rightarrow> machine \<Rightarrow> 64 word \<Rightarrow> 64 word \<Rightarrow> (64 word \<times> machine) option" where
  "buddy_realloc c pool st ptr sz =
     (if ptr = 0 then buddy_malloc c pool st sz
      else if sz = 0 then do {
        st \<leftarrow> buddy_free c pool st ptr;
        Some (0, st)
      }
      else do {
        let block = ptr - of_nat (hdr c);
        b \<leftarrow> rd c st (Addr block);
        s \<leftarrow> shl1 (kval b);
        let old_size = s - of_nat (hdr c);
        let new_size = sz;
        if new_size \<le> old_size then Some (ptr, st)
        else do {
          (new_ptr, st) \<leftarrow> buddy_malloc c pool st sz;
          if new_ptr = 0 then Some (0, st)
          else do {
            st \<leftarrow> memcpy c st new_ptr ptr old_size;
            st \<leftarrow> buddy_free c pool st ptr;
            Some (new_ptr, st)
          }
        }
      })"

section \<open>Arena set-up and tear-down\<close>

text \<open>The loop \<open>for (size_t i = 0; i < MAX_K; i++)\<close> that resets the list heads.\<close>

function init_avail :: "cfg \<Rightarrow> machine \<Rightarrow> nat \<Rightarrow> machine" where
  "init_avail c st i =
     (if i < MAX_K c then
        init_avail c
          (st\<lparr>heap := (heap st)(Sent i := \<lparr>tag = BLOCK_UNUSED, kval = i, next = Sent i, prev = Sent i\<rparr>)\<rparr>)
          (i + 1)
      else st)"
  by pat_completeness auto
termination
  by (relation "measure (\<lambda>(c, st, i). MAX_K c - i)") auto

declare init_avail.simps [simp del]

text \<open>
  \<open>buddy_init\<close>. The answer of \<open>mmap\<close> is an argument. \<open>pool\<close> is dereferenced without a
  check, so a null pool is undefined behaviour.
\<close>

definition buddy_init :: "cfg \<Rightarrow> pool_ptr \<Rightarrow> machine \<Rightarrow> 64 word \<Rightarrow> mmap_result \<Rightarrow> machine option" where
  "buddy_init c pool st sz res =
     (if pool = NULL_pool then None
      else do {
        let st = (if sz = 0 then st\<lparr>kval_m := DEFAULT_K c\<rparr>
                  else
                    let k = btok c sz;
                        k = (if k < MIN_K c then MIN_K c else k);
                        k = (if k \<ge> MAX_K c then MAX_K c - 1 else k)
                    in st\<lparr>kval_m := k\<rparr>);
        n \<leftarrow> shl1 (kval_m st);
        let st = st\<lparr>numbytes := n\<rparr>;
        let st = st\<lparr>oscalls := oscalls st @ [Mmap (numbytes st)]\<rparr>;
        case res of
          MAP_FAILED \<Rightarrow> Some (st\<lparr>base := 0, oscalls := oscalls st @ [Perror]\<rparr>)
        | Mapped b \<Rightarrow> do {
            let st = st\<lparr>base := b\<rparr>;
            let st = init_avail c st 0;
            let initial_block = Addr (base st);
            st \<leftarrow> wr c st initial_block (\<lambda>h. h\<lparr>tag := BLOCK_AVAIL\<rparr>);
            st \<leftarrow> wr c st initial_block (\<lambda>h. h\<lparr>kval := kval_m st\<rparr>);
            st \<leftarrow> wr c st initial_block (\<lambda>h. h\<lparr>next := Sent (kval_m st)\<rparr>);
            st \<leftarrow> wr c st initial_block (\<lambda>h. h\<lparr>prev := Sent (kval_m st)\<rparr>);
            st \<leftarrow> wr c st (Sent (kval_m st)) (\<lambda>h. h\<lparr>next := initial_block\<rparr>);
            wr c st (Sent (kval_m st)) (\<lambda>h. h\<lparr>prev := initial_block\<rparr>)
          }
      })"

definition buddy_destroy :: "pool_ptr \<Rightarrow> machine \<Rightarrow> machine" where
  "buddy_destroy pool st =
     (if pool = NULL_pool \<or> base st = 0 then st
      else st\<lparr>oscalls := oscalls st @ [Munmap (base st) (numbytes st)], base := 0\<rparr>)"

section \<open>Well-formed arenas\<close>

text \<open>
  A block is written as its offset from \<open>base\<close> and its order. \<open>addr\<close> turns an offset
  into the address of the block's header.
\<close>

type_synonym blk = "nat \<times> nat"

definition addr :: "machine \<Rightarrow> nat \<Rightarrow> 64 word" where
  "addr st x = base st + of_nat x"

definition nodes :: "machine \<Rightarrow> nat list \<Rightarrow> ptr list" where
  "nodes st xs = map (\<lambda>x. Addr (addr st x)) xs"

text \<open>
  A circular doubly-linked list with head \<open>s\<close> and members \<open>xs\<close>, in order: following
  \<open>next\<close> from the head runs through \<open>xs\<close> and back to the head, and \<open>prev\<close> undoes it.
\<close>

definition dllp :: "(ptr \<Rightarrow> avail) \<Rightarrow> ptr \<Rightarrow> ptr list \<Rightarrow> bool" where
  "dllp h s xs \<longleftrightarrow>
     map (\<lambda>p. next (h p)) (s # xs) = xs @ [s] \<and>
     map (\<lambda>p. prev (h p)) (xs @ [s]) = s # xs"

definition dll :: "machine \<Rightarrow> nat \<Rightarrow> nat list \<Rightarrow> bool" where
  "dll st i xs \<longleftrightarrow> dllp (heap st) (Sent i) (nodes st xs)"

text \<open>
  Blocks of an arena of order \<open>km\<close>: each is aligned to its size and lies in the arena;
  two different blocks do not overlap; together they cover the arena.
\<close>

definition wf_blk :: "cfg \<Rightarrow> nat \<Rightarrow> blk \<Rightarrow> bool" where
  "wf_blk c km b \<longleftrightarrow>
     SMALLEST_K c \<le> snd b \<and> snd b \<le> km \<and> 2 ^ snd b dvd fst b \<and> fst b + 2 ^ snd b \<le> 2 ^ km"

definition disj :: "blk \<Rightarrow> blk \<Rightarrow> bool" where
  "disj b b' \<longleftrightarrow> fst b + 2 ^ snd b \<le> fst b' \<or> fst b' + 2 ^ snd b' \<le> fst b"

definition covers :: "blk \<Rightarrow> nat \<Rightarrow> bool" where
  "covers b x \<longleftrightarrow> fst b \<le> x \<and> x < fst b + 2 ^ snd b"

definition tiling :: "cfg \<Rightarrow> nat \<Rightarrow> blk set \<Rightarrow> bool" where
  "tiling c km B \<longleftrightarrow>
     (\<forall>b\<in>B. wf_blk c km b) \<and>
     (\<forall>b\<in>B. \<forall>b'\<in>B. b \<noteq> b' \<longrightarrow> disj b b') \<and>
     (\<forall>x<2 ^ km. \<exists>b\<in>B. covers b x)"

definition free_blks :: "(nat \<Rightarrow> nat list) \<Rightarrow> blk set" where
  "free_blks fl = {(a, i). a \<in> set (fl i)}"

definition pool_ok :: "cfg \<Rightarrow> machine \<Rightarrow> bool" where
  "pool_ok c st \<longleftrightarrow>
     cfg_ok c \<and> SMALLEST_K c \<le> kval_m st \<and> kval_m st < MAX_K c \<and>
     numbytes st = push_bit (kval_m st) 1 \<and>
     base st \<noteq> 0 \<and> unat (base st) + 2 ^ kval_m st \<le> 2 ^ 64"

definition hdr_is :: "machine \<Rightarrow> tag \<Rightarrow> blk \<Rightarrow> bool" where
  "hdr_is st t b \<longleftrightarrow>
     tag (heap st (Addr (addr st (fst b)))) = t \<and> kval (heap st (Addr (addr st (fst b)))) = snd b"

text \<open>
  The invariant. \<open>fl i\<close> are the offsets of the blocks on the free list of order \<open>i\<close>, in
  list order; \<open>R\<close> are the blocks handed out; \<open>D\<close> are blocks that an operation has taken
  off a list and not yet put back or handed out (empty between operations).
\<close>

definition pinv :: "cfg \<Rightarrow> machine \<Rightarrow> (nat \<Rightarrow> nat list) \<Rightarrow> blk set \<Rightarrow> blk set \<Rightarrow> bool" where
  "pinv c st fl R D \<longleftrightarrow>
     pool_ok c st \<and>
     (\<forall>i<MAX_K c. dll st i (fl i)) \<and>
     (\<forall>i. distinct (fl i)) \<and>
     tiling c (kval_m st) (free_blks fl \<union> R \<union> D) \<and>
     free_blks fl \<inter> D = {} \<and> R \<inter> D = {} \<and>
     (\<forall>b\<in>free_blks fl. hdr_is st BLOCK_AVAIL b) \<and>
     (\<forall>b\<in>R. hdr_is st BLOCK_RESERVED b)"

definition pool_inv :: "cfg \<Rightarrow> machine \<Rightarrow> (nat \<Rightarrow> nat list) \<Rightarrow> blk set \<Rightarrow> bool" where
  "pool_inv c st fl R \<longleftrightarrow> pinv c st fl R {}"

definition free_bytes :: "cfg \<Rightarrow> (nat \<Rightarrow> nat list) \<Rightarrow> nat" where
  "free_bytes c fl = (\<Sum>i<MAX_K c. length (fl i) * 2 ^ i)"

text \<open>The effect of \<open>unlink\<close> and of \<open>push_front\<close> on the headers, as functions.\<close>

definition unlink_h :: "(ptr \<Rightarrow> avail) \<Rightarrow> ptr \<Rightarrow> (ptr \<Rightarrow> avail)" where
  "unlink_h h p =
     (let h1 = h(prev (h p) := (h (prev (h p)))\<lparr>next := next (h p)\<rparr>)
      in h1(next (h1 p) := (h1 (next (h1 p)))\<lparr>prev := prev (h1 p)\<rparr>))"

definition push_h :: "(ptr \<Rightarrow> avail) \<Rightarrow> ptr \<Rightarrow> ptr \<Rightarrow> (ptr \<Rightarrow> avail)" where
  "push_h h s p =
     (let h1 = h(p := (h p)\<lparr>next := next (h s)\<rparr>);
          h2 = h1(p := (h1 p)\<lparr>prev := s\<rparr>);
          h3 = h2(next (h2 s) := (h2 (next (h2 s)))\<lparr>prev := p\<rparr>)
      in h3(s := (h3 s)\<lparr>next := p\<rparr>))"

text \<open>The pool order that \<open>buddy_init\<close> chooses for a requested size.\<close>

definition init_order :: "cfg \<Rightarrow> 64 word \<Rightarrow> nat" where
  "init_order c sz =
     (if sz = 0 then DEFAULT_K c
      else
        let k = btok c sz;
            k = (if k < MIN_K c then MIN_K c else k);
            k = (if k \<ge> MAX_K c then MAX_K c - 1 else k)
        in k)"

text \<open>The headers after the loop of \<open>buddy_init\<close> has run from \<open>i\<close> on.\<close>

definition sent_heap :: "cfg \<Rightarrow> (ptr \<Rightarrow> avail) \<Rightarrow> nat \<Rightarrow> (ptr \<Rightarrow> avail)" where
  "sent_heap c h i =
     (\<lambda>p. case p of
        Sent j \<Rightarrow> if i \<le> j \<and> j < MAX_K c
                  then \<lparr>tag = BLOCK_UNUSED, kval = j, next = Sent j, prev = Sent j\<rparr>
                  else h p
      | Addr w \<Rightarrow> h p)"

text \<open>The state after a successful \<open>buddy_init\<close>, written out.\<close>

definition init_heap :: "cfg \<Rightarrow> (ptr \<Rightarrow> avail) \<Rightarrow> nat \<Rightarrow> 64 word \<Rightarrow> (ptr \<Rightarrow> avail)" where
  "init_heap c h km b =
     (\<lambda>p. case p of
        Sent j \<Rightarrow>
          if j = km then \<lparr>tag = BLOCK_UNUSED, kval = j, next = Addr b, prev = Addr b\<rparr>
          else if j < MAX_K c then \<lparr>tag = BLOCK_UNUSED, kval = j, next = Sent j, prev = Sent j\<rparr>
          else h p
      | Addr w \<Rightarrow>
          if w = b then \<lparr>tag = BLOCK_AVAIL, kval = km, next = Sent km, prev = Sent km\<rparr>
          else h p)"

definition init_state :: "cfg \<Rightarrow> machine \<Rightarrow> 64 word \<Rightarrow> 64 word \<Rightarrow> machine" where
  "init_state c st sz b =
     st\<lparr>kval_m := init_order c sz, numbytes := 2 ^ init_order c sz, base := b,
        heap := init_heap c (heap st) (init_order c sz) b,
        oscalls := oscalls st @ [Mmap (2 ^ init_order c sz)]\<rparr>"

text \<open>The free lists of a fresh arena of order \<open>km\<close>: one block at offset 0.\<close>

definition fresh :: "nat \<Rightarrow> nat \<Rightarrow> nat list" where
  "fresh km i = (if i = km then [0] else [])"

section \<open>Release, as the specification words it\<close>

text \<open>
  The specification describes the coalescing loop on blocks and free lists: while \<open>k\<close> is
  below the top order, take the buddy at order \<open>k\<close> (the offset with bit \<open>k\<close> flipped); if it
  is not free at order \<open>k\<close>, stop; otherwise take it off its free list, go on with the lower of
  the two and with \<open>k + 1\<close>. Here a block is free at order \<open>k\<close> when it is on the free list
  of order \<open>k\<close>.
\<close>

function spec_coalesce :: "nat \<Rightarrow> (nat \<Rightarrow> nat list) \<Rightarrow> nat \<Rightarrow> nat \<Rightarrow> (nat \<Rightarrow> nat list) \<times> nat \<times> nat" where
  "spec_coalesce km fl a k =
     (if k < km \<and> a XOR 2 ^ k \<in> set (fl k)
      then spec_coalesce km (fl(k := remove1 (a XOR 2 ^ k) (fl k))) (min a (a XOR 2 ^ k)) (k + 1)
      else (fl, a, k))"
  by pat_completeness auto
termination
  by (relation "measure (\<lambda>(km, fl, a, k). km - k)") auto

declare spec_coalesce.simps [simp del]

text \<open>Then the block that is left goes to the head of the free list of its order.\<close>

definition spec_free :: "nat \<Rightarrow> (nat \<Rightarrow> nat list) \<Rightarrow> nat \<Rightarrow> nat \<Rightarrow> (nat \<Rightarrow> nat list)" where
  "spec_free km fl a k = (case spec_coalesce km fl a k of (fl', a', k') \<Rightarrow> fl'(k' := a' # fl' k'))"

text \<open>
  The buddy addresses that the loop of \<open>buddy_free\<close> computes, in order: the loop of
  \<open>coalesce\<close> again, keeping each result of \<open>buddy_calc\<close>.
\<close>

function coalesce_trace :: "cfg \<Rightarrow> machine \<Rightarrow> 64 word \<Rightarrow> nat \<Rightarrow> 64 word list" where
  "coalesce_trace c st block k =
     (if k < kval_m st then
        (case buddy_calc c st block of
           None \<Rightarrow> []
         | Some buddy \<Rightarrow>
            buddy #
            (case rd c st (Addr buddy) of
               None \<Rightarrow> []
             | Some bh \<Rightarrow>
                if tag bh \<noteq> BLOCK_AVAIL \<or> kval bh \<noteq> k then []
                else
                  (case unlink c st (Addr buddy) of
                     None \<Rightarrow> []
                   | Some st1 \<Rightarrow>
                      let block' = (if block > buddy then buddy else block) in
                      (case wr c st1 (Addr block') (\<lambda>h. h\<lparr>kval := k + 1\<rparr>) of
                         None \<Rightarrow> []
                       | Some st2 \<Rightarrow> coalesce_trace c st2 block' (k + 1)))))
      else [])"
  by pat_completeness auto
termination
proof (relation "measure (\<lambda>(c, st, block, k). kval_m st - k)")
  show "wf (measure (\<lambda>(c, st, block, k). kval_m st - k))" by simp
next
  fix c st block k buddy bh st1 block' st2
  assume k: "k < kval_m st"
    and u: "unlink c st (Addr buddy) = Some st1"
    and w: "wr c st1 (Addr block') (\<lambda>h. h\<lparr>kval := k + 1\<rparr>) = Some st2"
  have "kval_m st1 = kval_m st"
    using u by (auto simp: unlink_def wr_def rd_def split: if_splits Option.bind_splits)
  moreover have "kval_m st2 = kval_m st1"
    using w by (auto simp: wr_def split: if_splits)
  ultimately show "((c, st2, block', k + 1), c, st, block, k) \<in> measure (\<lambda>(c, st, block, k). kval_m st - k)"
    using k by simp
qed

declare coalesce_trace.simps [simp del]

definition free_trace :: "cfg \<Rightarrow> pool_ptr \<Rightarrow> machine \<Rightarrow> 64 word \<Rightarrow> 64 word list" where
  "free_trace c pool st ptr =
     (if pool = NULL_pool \<or> ptr = 0 then []
      else
        (case rd c st (Addr (ptr - of_nat (hdr c))) of
           None \<Rightarrow> []
         | Some b \<Rightarrow>
            (case wr c st (Addr (ptr - of_nat (hdr c))) (\<lambda>h. h\<lparr>tag := BLOCK_AVAIL\<rparr>) of
               None \<Rightarrow> []
             | Some st1 \<Rightarrow> coalesce_trace c st1 (ptr - of_nat (hdr c)) (kval b))))"

text \<open>
  The free lists after \<open>buddy_malloc\<close> has taken the head of list \<open>i\<close> and split it down to
  order \<open>k\<close>: each split puts the upper half at the head of the list one order below.
\<close>

definition split_lists :: "(nat \<Rightarrow> nat list) \<Rightarrow> nat \<Rightarrow> nat \<Rightarrow> nat \<Rightarrow> (nat \<Rightarrow> nat list)" where
  "split_lists fl a i k = (\<lambda>j. if k \<le> j \<and> j < i then (a + 2 ^ j) # fl j else fl j)"

definition malloc_lists :: "(nat \<Rightarrow> nat list) \<Rightarrow> nat \<Rightarrow> nat \<Rightarrow> (nat \<Rightarrow> nat list)" where
  "malloc_lists fl i k = split_lists (fl(i := tl (fl i))) (hd (fl i)) i k"


text \<open>
  Two header stores agree inside the blocks \<open>R\<close>: at every address of a block of \<open>R\<close> from
  which a header still fits into the block, its first address included.
\<close>

definition same_in :: "cfg \<Rightarrow> machine \<Rightarrow> blk set \<Rightarrow> (ptr \<Rightarrow> avail) \<Rightarrow> (ptr \<Rightarrow> avail) \<Rightarrow> bool" where
  "same_in c st R h h' \<longleftrightarrow>
     (\<forall>b\<in>R. \<forall>x. fst b \<le> x \<and> x + hdr c \<le> fst b + 2 ^ snd b \<longrightarrow>
        h' (Addr (addr st x)) = h (Addr (addr st x)))"
section \<open>A concrete machine\<close>

text \<open>A machine before \<open>buddy_init\<close>: nothing mapped, every header zeroed.\<close>

definition m0 :: machine where
  "m0 = \<lparr>kval_m = 0, numbytes = 0, base = 0,
         heap = (\<lambda>_. \<lparr>tag = BLOCK_RESERVED, kval = 0, next = Addr 0, prev = Addr 0\<rparr>),
         bytes = (\<lambda>_. 0), errno = 0, oscalls = []\<rparr>"

text \<open>
  The machine after \<open>buddy_init(&pool, 1)\<close> when \<open>mmap\<close> answers \<open>0x10000000\<close>, and after a
  following \<open>buddy_malloc(&pool, 100)\<close>.
\<close>

definition m1 :: machine where
  "m1 = init_state cfg0 m0 1 0x10000000"

definition m2 :: machine where
  "m2 = snd (the (buddy_malloc cfg0 Pool m1 100))"

section \<open>Properties of the order calculator\<close>

lemma cfg0_fields:
  "hdr cfg0 = 24" "SMALLEST_K cfg0 = 6" "MIN_K cfg0 = 20" "DEFAULT_K cfg0 = 30" "MAX_K cfg0 = 48"
  by (simp_all add: cfg0_def)

lemma cfg0_ok: "cfg_ok cfg0"
  by (simp add: cfg_ok_def cfg0_fields)

lemma btok_loop_zero: "btok_loop 0 k = k"
  by (simp add: btok_loop.simps)

lemma btok_loop_bounds:
  "temp \<noteq> 0 \<Longrightarrow>
     k \<le> btok_loop temp k \<and> 2 ^ (btok_loop temp k - k) \<le> unat temp \<and>
     unat temp < 2 ^ (btok_loop temp k - k + 1)"
proof (induction temp k rule: btok_loop.induct)
  case (1 temp k)
  define t where "t = drop_bit 1 temp"
  have ut: "unat t = unat temp div 2"
    by (simp add: t_def drop_bit_eq_div unat_div)
  show ?case
  proof (cases "t = 0")
    case True
    then have "unat temp div 2 = 0" using ut by simp
    moreover have "unat temp \<noteq> 0" using "1.prems" by (simp add: unat_eq_0)
    ultimately have "unat temp = 1" by linarith
    moreover have "btok_loop temp k = k"
      using True by (subst btok_loop.simps) (simp add: t_def)
    ultimately show ?thesis by simp
  next
    case False
    define r where "r = btok_loop t (k + 1)"
    have eq: "btok_loop temp k = r"
      using False by (subst btok_loop.simps) (simp add: t_def r_def Let_def)
    from "1.IH" [OF t_def False False]
    have ih: "k + 1 \<le> r" "2 ^ (r - (k + 1)) \<le> unat t" "unat t < 2 ^ (r - (k + 1) + 1)"
      by (simp_all add: r_def)
    obtain d where d: "r = k + 1 + d" using ih(1) by (metis le_Suc_ex)
    have "2 ^ d \<le> unat temp div 2" "unat temp div 2 < 2 ^ (d + 1)"
      using ih(2,3) by (simp_all add: d ut)
    then have "2 ^ (d + 1) \<le> unat temp" "unat temp < 2 ^ (d + 2)"
      by simp_all
    then show ?thesis by (simp add: eq d)
  qed
qed


lemma pow2_less_D: "(2::nat) ^ a < 2 ^ b \<Longrightarrow> a < b"
  by (rule power_less_imp_less_exp [of 2]) simp_all

lemma unat_minus_one': "b \<noteq> 0 \<Longrightarrow> unat (b - 1 :: 64 word) = unat b - 1"
  by (simp add: unat_minus_one)

lemma btok_raw_ge: 
  assumes "b \<noteq> 0" shows "unat b \<le> 2 ^ (btok_loop (b - 1) 0 + 1)"
proof (cases "b - 1 = 0")
  case True
  then have "b = 1" by simp
  then show ?thesis by (simp add: btok_loop_zero)
next
  case False
  from btok_loop_bounds [OF False, of 0]
  have "unat (b - 1) < 2 ^ (btok_loop (b - 1) 0 + 1)" by simp
  then show ?thesis using assms by (simp add: unat_minus_one')
qed

lemma btok_raw_least:
  assumes "b \<noteq> 0" "b - 1 \<noteq> 0" shows "2 ^ btok_loop (b - 1) 0 < unat b"
proof -
  from btok_loop_bounds [OF assms(2), of 0]
  have "2 ^ btok_loop (b - 1) 0 \<le> unat (b - 1)" by simp
  moreover have "unat b \<noteq> 0" using assms(1) by (simp add: unat_eq_0)
  ultimately show ?thesis using assms(1) by (simp add: unat_minus_one')
qed

lemma unat_plus_hdr:
  assumes "unat s + h < 2 ^ 64"
  shows "unat (s + of_nat h :: 64 word) = unat s + h"
proof -
  have "h < 2 ^ 64" using assms by simp
  then have "unat (of_nat h :: 64 word) = h"
    by (simp add: unat_of_nat)
  then show ?thesis using assms by (simp add: unat_add_lem [THEN iffD1])
qed

lemma btok_raw_upper:
  assumes "b \<noteq> 0" "unat b \<le> 2 ^ m" "1 \<le> m"
  shows "btok_loop (b - 1) 0 + 1 \<le> m"
proof (cases "b - 1 = 0")
  case True
  then show ?thesis using assms(3) by (simp add: btok_loop_zero)
next
  case False
  from btok_raw_least [OF assms(1) False] assms(2)
  have "(2::nat) ^ btok_loop (b - 1) 0 < 2 ^ m" by (rule less_le_trans)
  then have "btok_loop (b - 1) 0 < m" by (rule pow2_less_D)
  then show ?thesis by simp
qed

lemma btok_raw_lower:
  assumes "b \<noteq> 0" "2 ^ m < unat b"
  shows "m < btok_loop (b - 1) 0 + 1"
proof -
  from assms(2) btok_raw_ge [OF assms(1)]
  have "(2::nat) ^ m < 2 ^ (btok_loop (b - 1) 0 + 1)" by (rule less_le_trans)
  then show ?thesis by (rule pow2_less_D)
qed

lemma cfg_ok_SMALLEST_pos: "cfg_ok c \<Longrightarrow> 1 \<le> SMALLEST_K c"
proof -
  assume "cfg_ok c"
  then have "0 < hdr c" "hdr c < 2 ^ SMALLEST_K c" by (simp_all add: cfg_ok_def)
  then have "(1::nat) < 2 ^ SMALLEST_K c" by simp
  then show ?thesis by (cases "SMALLEST_K c") simp_all
qed

lemma btok_fits:
  assumes ok: "cfg_ok c" and nz: "s \<noteq> 0" and le: "unat s + hdr c \<le> 2 ^ (MAX_K c - 1)"
  shows "unat s + hdr c \<le> 2 ^ btok c s"
proof -
  define b :: "64 word" where "b = s + of_nat (hdr c)"
  define r where "r = btok_loop (b - 1) 0 + 1"
  have M: "MAX_K c \<le> 64" "SMALLEST_K c < MAX_K c" "1 \<le> SMALLEST_K c" "0 < hdr c"
    using ok cfg_ok_SMALLEST_pos [OF ok] by (simp_all add: cfg_ok_def)
  have "(2::nat) ^ (MAX_K c - 1) < 2 ^ 64"
    using M by (intro power_strict_increasing) simp_all
  then have nw: "unat s + hdr c < 2 ^ 64" using le by simp
  have ub: "unat b = unat s + hdr c" unfolding b_def by (rule unat_plus_hdr [OF nw])
  then have bnz: "b \<noteq> 0" using M(4) by (auto simp: unat_eq_0 [symmetric])
  have ge: "unat b \<le> 2 ^ r" unfolding r_def by (rule btok_raw_ge [OF bnz])
  have up: "r \<le> MAX_K c - 1"
    unfolding r_def using M le by (intro btok_raw_upper [OF bnz]) (simp_all add: ub)
  have "btok c s = (if r < SMALLEST_K c then SMALLEST_K c else r)"
    using nz up M by (simp add: btok_def Let_def b_def r_def)
  moreover have "(2::nat) ^ r \<le> 2 ^ SMALLEST_K c" if "r < SMALLEST_K c"
    using that by (simp add: power_increasing)
  ultimately show ?thesis using ge ub by (auto intro: order_trans)
qed

lemma btok_exceeds:
  assumes ok: "cfg_ok c" and nz: "s \<noteq> 0" and nw: "unat s + hdr c < 2 ^ 64"
    and gt: "2 ^ m < unat s + hdr c" and m: "m + 1 < MAX_K c"
  shows "m < btok c s"
proof -
  define b :: "64 word" where "b = s + of_nat (hdr c)"
  define r where "r = btok_loop (b - 1) 0 + 1"
  have M: "0 < hdr c" "hdr c < 2 ^ SMALLEST_K c" using ok by (simp_all add: cfg_ok_def)
  have ub: "unat b = unat s + hdr c" unfolding b_def by (rule unat_plus_hdr [OF nw])
  then have bnz: "b \<noteq> 0" using M(1) by (auto simp: unat_eq_0 [symmetric])
  have "m < r" unfolding r_def using gt by (intro btok_raw_lower [OF bnz]) (simp add: ub)
  moreover have "btok c s =
      (let k = (if r < SMALLEST_K c then SMALLEST_K c else r)
       in if k \<ge> MAX_K c then MAX_K c - 1 else k)"
    using nz by (simp add: btok_def Let_def b_def r_def)
  ultimately show ?thesis
    using m by (auto simp: Let_def)
qed


lemma pow2_le_D: "(2::nat) ^ a \<le> 2 ^ b \<Longrightarrow> a \<le> b"
  by (rule power_le_imp_le_exp [of 2]) simp_all

lemma btok_range:
  assumes ok: "cfg_ok c" and nz: "s \<noteq> 0"
  shows "SMALLEST_K c \<le> btok c s \<and> btok c s \<le> MAX_K c - 1"
proof -
  have "SMALLEST_K c < MAX_K c" using ok by (simp add: cfg_ok_def)
  then show ?thesis using nz by (auto simp: btok_def Let_def)
qed

section \<open>Circular lists under unlinking and insertion\<close>

lemma unlink_h_next:
  "next (unlink_h h x q) = (if q = prev (h x) then next (h x) else next (h q))"
  by (simp add: unlink_h_def Let_def)

lemma unlink_h_prev:
  "prev (unlink_h h x q) = (if q = next (h x) then prev (h x) else prev (h q))"
  by (simp add: unlink_h_def Let_def)

lemma unlink_h_tag: "tag (unlink_h h x q) = tag (h q)"
  by (simp add: unlink_h_def Let_def)

lemma unlink_h_kval: "kval (unlink_h h x q) = kval (h q)"
  by (simp add: unlink_h_def Let_def)

lemma push_h_next:
  "p \<noteq> s \<Longrightarrow> next (push_h h s p q) = (if q = s then p else if q = p then next (h s) else next (h q))"
  by (simp add: push_h_def Let_def)

lemma push_h_prev:
  "p \<noteq> s \<Longrightarrow> next (h s) \<noteq> p \<Longrightarrow>
   prev (push_h h s p q) = (if q = next (h s) then p else if q = p then s else prev (h q))"
  by (simp add: push_h_def Let_def)

lemma push_h_tag: "tag (push_h h s p q) = tag (h q)"
  by (simp add: push_h_def Let_def)

lemma push_h_kval: "kval (push_h h s p q) = kval (h q)"
  by (simp add: push_h_def Let_def)

lemma dllp_frame:
  assumes "dllp h s xs"
    and n: "\<And>p. p \<in> set (s # xs) \<Longrightarrow> next (h' p) = next (h p)"
    and p: "\<And>p. p \<in> set (s # xs) \<Longrightarrow> prev (h' p) = prev (h p)"
  shows "dllp h' s xs"
proof -
  have "map (\<lambda>p. next (h' p)) (s # xs) = map (\<lambda>p. next (h p)) (s # xs)"
    by (rule map_cong [OF refl]) (rule n)
  moreover have "map (\<lambda>p. prev (h' p)) (xs @ [s]) = map (\<lambda>p. prev (h p)) (xs @ [s])"
    by (rule map_cong [OF refl]) (rule p, simp)
  ultimately show ?thesis using assms(1) unfolding dllp_def by (simp only:)
qed

lemma dllp_empty: "dllp h s [] \<longleftrightarrow> next (h s) = s \<and> prev (h s) = s"
  by (simp add: dllp_def)

lemma dllp_head:
  "dllp h s xs \<Longrightarrow> next (h s) = hd (xs @ [s])"
  by (cases xs) (simp_all add: dllp_def)

lemma unlink_lists:
  fixes nx pv :: "'a \<Rightarrow> 'a"
  assumes n: "map nx (s # ys @ x # zs) = ys @ x # zs @ [s]"
    and p: "map pv (ys @ x # zs @ [s]) = s # ys @ x # zs"
    and d: "distinct (s # ys @ x # zs)"
  shows "map (nx(pv x := nx x)) (s # ys @ zs) = ys @ zs @ [s]"
    and "map (pv(nx x := pv x)) (ys @ zs @ [s]) = s # ys @ zs"
proof -
  have "map nx (s # ys) @ (nx x # map nx zs) = (ys @ [x]) @ (zs @ [s])"
    using n by simp
  then have "map nx (s # ys) = ys @ [x] \<and> nx x # map nx zs = zs @ [s]"
    by (rule append_eq_append_conv [THEN iffD1, rotated]) simp
  then have n1: "map nx (s # ys) = ys @ [x]" and n2: "nx x # map nx zs = zs @ [s]"
    by simp_all
  have "map pv (ys @ [x]) @ map pv (zs @ [s]) = (s # ys) @ (x # zs)"
    using p by simp
  then have "map pv (ys @ [x]) = s # ys \<and> map pv (zs @ [s]) = x # zs"
    by (rule append_eq_append_conv [THEN iffD1, rotated]) simp
  then have p1: "map pv (ys @ [x]) = s # ys" and p2: "map pv (zs @ [s]) = x # zs"
    by simp_all
  define P where "P = pv x"
  define N where "N = nx x"
  define ws where "ws = map pv ys"
  define ts where "ts = map nx zs"
  have ws: "s # ys = ws @ [P]" and mws: "map pv ys = ws"
    using p1 by (simp_all add: P_def ws_def)
  have ts: "zs @ [s] = N # ts" and mts: "map nx zs = ts"
    using n2 by (simp_all add: N_def ts_def)
  have Pws: "P \<notin> set ws"
  proof -
    have "distinct (s # ys)" using d by simp
    then have "distinct (ws @ [P])" by (simp only: ws)
    then show ?thesis by simp
  qed
  have Pzs: "P \<notin> set zs"
  proof -
    have "P \<in> set (s # ys)" by (simp add: ws)
    then show ?thesis using d by auto
  qed
  have Nts: "N \<notin> set ts"
  proof -
    have "distinct (zs @ [s])" using d by auto
    then show ?thesis by (simp add: ts)
  qed
  have Nys: "N \<notin> set ys"
  proof -
    have "N \<in> set (zs @ [s])" by (simp add: ts)
    then show ?thesis using d by auto
  qed
  have nws: "map nx ws = ys"
  proof -
    have "map nx ws @ [nx P] = ys @ [x]" using n1 by (simp add: ws)
    then show ?thesis by simp
  qed
  have pts: "map pv ts = zs"
  proof -
    have "pv N # map pv ts = x # zs" using p2 by (simp add: ts)
    then show ?thesis by simp
  qed
  have "map (nx(P := N)) (s # ys @ zs) = map (nx(P := N)) (ws @ [P]) @ map (nx(P := N)) zs"
    by (simp flip: ws)
  also have "\<dots> = (map nx ws @ [N]) @ map nx zs"
    using Pws Pzs by (simp add: map_fun_upd)
  also have "\<dots> = ys @ (N # ts)" by (simp add: nws mts)
  also have "\<dots> = ys @ zs @ [s]" by (simp add: ts)
  finally show "map (nx(pv x := nx x)) (s # ys @ zs) = ys @ zs @ [s]"
    by (simp add: P_def N_def)
  have "map (pv(N := P)) (ys @ zs @ [s]) = map (pv(N := P)) ys @ map (pv(N := P)) (N # ts)"
    by (simp flip: ts)
  also have "\<dots> = map pv ys @ (P # map pv ts)"
    using Nys Nts by (simp add: map_fun_upd)
  also have "\<dots> = (ws @ [P]) @ zs" by (simp add: mws pts)
  also have "\<dots> = s # ys @ zs" by (simp flip: ws)
  finally show "map (pv(nx x := pv x)) (ys @ zs @ [s]) = s # ys @ zs"
    by (simp add: P_def N_def)
qed

lemma unlink_h_next_fun:
  "(\<lambda>q. next (unlink_h h x q)) = (\<lambda>q. next (h q))(prev (h x) := next (h x))"
  by (rule ext) (simp add: unlink_h_next)

lemma unlink_h_prev_fun:
  "(\<lambda>q. prev (unlink_h h x q)) = (\<lambda>q. prev (h q))(next (h x) := prev (h x))"
  by (rule ext) (simp add: unlink_h_prev)

lemma dllp_unlink:
  assumes d: "dllp h s xs" and dist: "distinct (s # xs)" and x: "x \<in> set xs"
  shows "dllp (unlink_h h x) s (remove1 x xs)"
proof -
  obtain ys zs where xs: "xs = ys @ x # zs" and nys: "x \<notin> set ys"
    using x by (meson split_list_first)
  have r: "remove1 x xs = ys @ zs" using nys by (simp add: xs remove1_append)
  have n: "map (\<lambda>q. next (h q)) (s # ys @ x # zs) = ys @ x # zs @ [s]"
    and p: "map (\<lambda>q. prev (h q)) (ys @ x # zs @ [s]) = s # ys @ x # zs"
    using d by (simp_all add: dllp_def xs)
  have dd: "distinct (s # ys @ x # zs)" using dist by (simp add: xs)
  show ?thesis
    unfolding dllp_def r unlink_h_next_fun unlink_h_prev_fun
    using unlink_lists [OF n p dd] by simp
qed

lemma push_h_next_fun:
  "p \<noteq> s \<Longrightarrow> (\<lambda>q. next (push_h h s p q)) = (\<lambda>q. next (h q))(p := next (h s), s := p)"
  by (rule ext) (simp add: push_h_next)

lemma push_h_prev_fun:
  "p \<noteq> s \<Longrightarrow> next (h s) \<noteq> p \<Longrightarrow>
   (\<lambda>q. prev (push_h h s p q)) = (\<lambda>q. prev (h q))(p := s, next (h s) := p)"
  by (rule ext) (simp add: push_h_prev)

lemma push_lists:
  fixes nx pv :: "'a \<Rightarrow> 'a"
  assumes n: "map nx (s # xs) = xs @ [s]"
    and pp: "map pv (xs @ [s]) = s # xs"
    and d: "distinct (s # xs)" and p: "p \<notin> set (s # xs)"
  shows "map (nx(p := nx s, s := p)) (s # p # xs) = p # xs @ [s]"
    and "map (pv(p := s, nx s := p)) (p # xs @ [s]) = s # p # xs"
proof -
  define ts where "ts = map nx xs"
  have ts: "xs @ [s] = nx s # ts" and mts: "map nx xs = ts"
    using n by (simp_all add: ts_def)
  have Nts: "nx s \<notin> set ts"
  proof -
    have "distinct (xs @ [s])" using d by auto
    then show ?thesis by (simp add: ts)
  qed
  have pts: "p \<notin> set ts"
  proof -
    have "p \<notin> set (xs @ [s])" using p by auto
    then show ?thesis by (simp add: ts)
  qed
  have pN: "p \<noteq> nx s"
  proof -
    have "p \<notin> set (xs @ [s])" using p by auto
    then show ?thesis by (simp add: ts)
  qed
  have sxs: "s \<notin> set xs" "p \<notin> set xs" "p \<noteq> s" using d p by auto
  have "map (nx(p := nx s, s := p)) (s # p # xs) = p # nx s # map nx xs"
    using sxs by (simp add: map_fun_upd)
  also have "\<dots> = p # xs @ [s]" by (simp add: mts ts)
  finally show "map (nx(p := nx s, s := p)) (s # p # xs) = p # xs @ [s]" .
  have pv_ts: "map pv ts = xs"
  proof -
    have "pv (nx s) # map pv ts = s # xs" using pp by (simp add: ts)
    then show ?thesis by simp
  qed
  have "map (pv(p := s, nx s := p)) (p # xs @ [s]) = map (pv(p := s, nx s := p)) (p # nx s # ts)"
    by (simp add: ts)
  also have "\<dots> = s # p # map pv ts"
    using pN Nts pts by (simp add: map_fun_upd)
  also have "\<dots> = s # p # xs" by (simp add: pv_ts)
  finally show "map (pv(p := s, nx s := p)) (p # xs @ [s]) = s # p # xs" .
qed

lemma dllp_push:
  assumes d: "dllp h s xs" and p: "p \<notin> set (s # xs)" and dist: "distinct (s # xs)"
  shows "dllp (push_h h s p) s (p # xs)"
proof -
  have ps: "p \<noteq> s" using p by auto
  have hp: "next (h s) \<noteq> p" using dllp_head [OF d] p by (cases xs) auto
  have n: "map (\<lambda>q. next (h q)) (s # xs) = xs @ [s]"
    and pp: "map (\<lambda>q. prev (h q)) (xs @ [s]) = s # xs"
    using d by (simp_all add: dllp_def)
  show ?thesis
    unfolding dllp_def push_h_next_fun [OF ps] push_h_prev_fun [where h = h and s = s and p = p, OF ps hp]
    using push_lists [OF n pp dist p] by simp
qed

lemma dllp_links:
  assumes "dllp h s xs" "x \<in> set xs"
  shows "next (h x) \<in> set (s # xs)" "prev (h x) \<in> set (s # xs)"
proof -
  obtain ys zs where xs: "xs = ys @ x # zs" using assms(2) by (meson split_list)
  have "map (\<lambda>q. next (h q)) (s # ys) @ (next (h x) # map (\<lambda>q. next (h q)) zs) = (ys @ [x]) @ (zs @ [s])"
    using assms(1) by (simp add: dllp_def xs)
  then have "map (\<lambda>q. next (h q)) (s # ys) = ys @ [x] \<and> next (h x) # map (\<lambda>q. next (h q)) zs = zs @ [s]"
    by (rule append_eq_append_conv [THEN iffD1, rotated]) simp
  then have "next (h x) # map (\<lambda>q. next (h q)) zs = zs @ [s]" by simp
  then have "next (h x) = hd (zs @ [s])" by (metis list.sel(1))
  moreover have "hd (zs @ [s]) \<in> set (zs @ [s])" by (rule hd_in_set) simp
  ultimately show "next (h x) \<in> set (s # xs)" by (auto simp: xs)
  have "map (\<lambda>q. prev (h q)) (ys @ [x]) @ map (\<lambda>q. prev (h q)) (zs @ [s]) = (s # ys) @ (x # zs)"
    using assms(1) by (simp add: dllp_def xs)
  then have "map (\<lambda>q. prev (h q)) (ys @ [x]) = s # ys \<and> map (\<lambda>q. prev (h q)) (zs @ [s]) = x # zs"
    by (rule append_eq_append_conv [THEN iffD1, rotated]) simp
  then have "map (\<lambda>q. prev (h q)) (ys @ [x]) = s # ys" by simp
  then have "prev (h x) = last (s # ys)" by (metis last_map last_snoc snoc_eq_iff_butlast)
  moreover have "last (s # ys) \<in> set (s # ys)" by (rule last_in_set) simp
  ultimately show "prev (h x) \<in> set (s # xs)" by (auto simp: xs)
qed

section \<open>Arithmetic of aligned blocks\<close>

subsection \<open>Multiples of a power of two\<close>

lemma mult_gap:
  fixes d u v :: nat
  assumes "d dvd u" "d dvd v" "u < v"
  shows "u + d \<le> v"
proof -
  have "d dvd v - u" using assms(1,2) by (rule dvd_diff_nat [rotated])
  moreover have "0 < v - u" using assms(3) by simp
  ultimately have "d \<le> v - u" by (rule dvd_imp_le)
  then show ?thesis using assms(3) by simp
qed

lemma pow2_dvd_mono: "j \<le> k \<Longrightarrow> (2::nat) ^ k dvd x \<Longrightarrow> 2 ^ j dvd x"
  by (meson dvd_trans le_imp_power_dvd)

lemma xor_pow2_aligned:
  fixes x :: nat
  assumes "2 ^ k dvd x"
  shows "x XOR 2 ^ k = (if 2 ^ (k + 1) dvd x then x + 2 ^ k else x - 2 ^ k)"
proof -
  obtain q where x: "x = 2 ^ k * q" using assms by (auto elim: dvdE)
  have a: "push_bit k q = x" by (simp only: push_bit_eq_mult x mult.commute)
  have b: "push_bit k (1::nat) = 2 ^ k" by (simp only: push_bit_eq_mult mult_1)
  have c: "push_bit k (q XOR 1) = x XOR 2 ^ k" by (simp only: push_bit_xor a b)
  have d: "q XOR 1 = (if even q then q + 1 else q - 1)"
    using xor_Suc_0_eq [of q] by (cases "even q") simp_all
  have ev: "even q \<longleftrightarrow> 2 ^ (k + 1) dvd x"
    unfolding x by simp
  show ?thesis
  proof (cases "even q")
    case True
    have "x XOR 2 ^ k = (q + 1) * 2 ^ k"
      using True by (simp only: c [symmetric] d push_bit_eq_mult if_True)
    also have "\<dots> = x + 2 ^ k" by (simp add: x)
    finally show ?thesis using True ev by simp
  next
    case False
    then have q1: "1 \<le> q" by (cases q) auto
    have "x XOR 2 ^ k = (q - 1) * 2 ^ k"
      using False by (simp only: c [symmetric] d push_bit_eq_mult if_False)
    also have "\<dots> = x - 2 ^ k" using q1 by (simp add: x diff_mult_distrib mult.commute)
    finally show ?thesis using False ev by simp
  qed
qed

lemma xor_pow2_cases:
  fixes x :: nat
  assumes "2 ^ k dvd x"
  obtains (low) "2 ^ (k + 1) dvd x" "x XOR 2 ^ k = x + 2 ^ k"
        | (high) "2 ^ k \<le> x" "2 ^ (k + 1) dvd x - 2 ^ k" "x XOR 2 ^ k = x - 2 ^ k"
proof (cases "2 ^ (k + 1) dvd x")
  case True
  then show ?thesis using xor_pow2_aligned [OF assms] low by simp
next
  case False
  obtain q where x: "x = 2 ^ k * q" using assms by (auto elim: dvdE)
  have "odd q" using False by (simp add: x)
  then obtain r where q: "q = 2 * r + 1" by (auto elim: oddE)
  have "2 ^ k \<le> x" by (simp add: x q)
  moreover have "x - 2 ^ k = 2 ^ (k + 1) * r" by (simp add: x q algebra_simps)
  then have "2 ^ (k + 1) dvd x - 2 ^ k" by simp
  moreover have "x XOR 2 ^ k = x - 2 ^ k" using xor_pow2_aligned [OF assms] False by simp
  ultimately show ?thesis by (rule high)
qed

section \<open>Tilings of the arena\<close>

lemma tiling_unique_order:
  assumes "tiling c km B" "(a, i) \<in> B" "(a, j) \<in> B"
  shows "i = j"
proof (rule ccontr)
  assume "i \<noteq> j"
  then have "(a, i) \<noteq> (a, j)" by simp
  with assms have "disj (a, i) (a, j)" unfolding tiling_def by blast
  then show False by (simp add: disj_def)
qed

lemma tiling_wf: "tiling c km B \<Longrightarrow> b \<in> B \<Longrightarrow> wf_blk c km b"
  by (simp add: tiling_def)

lemma tiling_disj: "tiling c km B \<Longrightarrow> b \<in> B \<Longrightarrow> b' \<in> B \<Longrightarrow> b \<noteq> b' \<Longrightarrow> disj b b'"
  by (simp add: tiling_def)

lemma tiling_covers: "tiling c km B \<Longrightarrow> x < 2 ^ km \<Longrightarrow> \<exists>b\<in>B. covers b x"
  by (simp add: tiling_def)

lemma tilingI:
  assumes "\<And>b. b \<in> B \<Longrightarrow> wf_blk c km b"
    and "\<And>b b'. b \<in> B \<Longrightarrow> b' \<in> B \<Longrightarrow> b \<noteq> b' \<Longrightarrow> disj b b'"
    and "\<And>x. x < 2 ^ km \<Longrightarrow> \<exists>b\<in>B. covers b x"
  shows "tiling c km B"
  using assms unfolding tiling_def by blast

lemma disj_sym: "disj b b' \<Longrightarrow> disj b' b"
  by (auto simp: disj_def)

lemma tiling_split:
  assumes t: "tiling c km (insert (a, Suc j) B)" and n: "(a, Suc j) \<notin> B"
    and j: "SMALLEST_K c \<le> j"
  shows "tiling c km (insert (a, j) (insert (a + 2 ^ j, j) B))"
    and "(a, j) \<notin> B" and "(a + 2 ^ j, j) \<notin> B"
proof -
  have w: "Suc j \<le> km" "2 ^ Suc j dvd a" "a + 2 ^ Suc j \<le> 2 ^ km"
    using tiling_wf [OF t, of "(a, Suc j)"] by (simp_all add: wf_blk_def)
  have dj: "2 ^ j dvd a" using w(2) by (rule pow2_dvd_mono [rotated]) simp
  have old: "disj (a, Suc j) b" if "b \<in> B" for b
    using tiling_disj [OF t, of "(a, Suc j)" b] that n by auto
  show n1: "(a, j) \<notin> B"
  proof
    assume "(a, j) \<in> B"
    from old [OF this] show False by (simp add: disj_def)
  qed
  show n2: "(a + 2 ^ j, j) \<notin> B"
  proof
    assume "(a + 2 ^ j, j) \<in> B"
    from old [OF this] show False by (simp add: disj_def)
  qed
  have d1: "disj (a, j) b" and d2: "disj (a + 2 ^ j, j) b" if "b \<in> B" for b
    using old [OF that] by (auto simp: disj_def)
  have d12: "disj (a, j) (a + 2 ^ j, j)" by (simp add: disj_def)
  show "tiling c km (insert (a, j) (insert (a + 2 ^ j, j) B))"
  proof (rule tilingI)
    fix b assume "b \<in> insert (a, j) (insert (a + 2 ^ j, j) B)"
    then consider "b = (a, j)" | "b = (a + 2 ^ j, j)" | "b \<in> B" by blast
    then show "wf_blk c km b"
    proof cases
      case 1 then show ?thesis using w j dj by (simp add: wf_blk_def)
    next
      case 2 then show ?thesis using w j dj by (simp add: wf_blk_def)
    next
      case 3 then show ?thesis using tiling_wf [OF t, of b] by simp
    qed
  next
    fix b b' assume b: "b \<in> insert (a, j) (insert (a + 2 ^ j, j) B)"
      and b': "b' \<in> insert (a, j) (insert (a + 2 ^ j, j) B)" and ne: "b \<noteq> b'"
    have BB: "disj b b'" if "b \<in> B" "b' \<in> B"
      using tiling_disj [OF t, of b b'] that ne by simp
    from b b' ne show "disj b b'"
      by (metis insertE d1 d2 d12 BB disj_sym)
  next
    fix x :: nat assume "x < 2 ^ km"
    from tiling_covers [OF t this] obtain b where b: "b \<in> insert (a, Suc j) B" "covers b x"
      by blast
    show "\<exists>b\<in>insert (a, j) (insert (a + 2 ^ j, j) B). covers b x"
    proof (cases "b = (a, Suc j)")
      case True
      then have "covers (a, j) x \<or> covers (a + 2 ^ j, j) x"
        using b(2) by (auto simp: covers_def)
      then show ?thesis by blast
    next
      case False
      then show ?thesis using b by blast
    qed
  qed
qed

lemma disj_merge_aux:
  assumes "disj (a, j) b" "disj (a + 2 ^ j, j) b"
  shows "disj (a, Suc j) b"
proof -
  define m :: nat where "m = 2 ^ j"
  define n :: nat where "n = 2 ^ snd b"
  have "0 < n" by (simp add: n_def)
  moreover have "a + m \<le> fst b \<or> fst b + n \<le> a" "a + m + m \<le> fst b \<or> fst b + n \<le> a + m"
    using assms by (simp_all add: disj_def m_def n_def)
  ultimately have "a + 2 * m \<le> fst b \<or> fst b + n \<le> a" by linarith
  then show ?thesis by (simp add: disj_def m_def n_def)
qed

lemma covers_not_disj:
  assumes "covers (x, j) a" "disj (x, j) (a, k)"
  shows False
proof -
  define n :: nat where "n = 2 ^ k"
  have "0 < n" by (simp add: n_def)
  moreover have "x \<le> a" "a < x + 2 ^ j" using assms(1) by (simp_all add: covers_def)
  moreover have "x + 2 ^ j \<le> a \<or> a + n \<le> x" using assms(2) by (simp add: disj_def n_def)
  ultimately show False by linarith
qed

lemma tiling_merge:
  assumes t: "tiling c km (insert (a, j) (insert (a + 2 ^ j, j) B))"
    and al: "2 ^ Suc j dvd a" and n1: "(a, j) \<notin> B" and n2: "(a + 2 ^ j, j) \<notin> B"
    and j: "j < km"
  shows "tiling c km (insert (a, Suc j) B)" and "(a, Suc j) \<notin> B"
proof -
  let ?B = "insert (a, j) (insert (a + 2 ^ j, j) B)"
  have w1: "SMALLEST_K c \<le> j" using tiling_wf [OF t, of "(a, j)"] by (simp add: wf_blk_def)
  have w2: "a + 2 ^ j + 2 ^ j \<le> 2 ^ km"
    using tiling_wf [OF t, of "(a + 2 ^ j, j)"] by (simp add: wf_blk_def)
  have d1: "disj (a, j) b" and d2: "disj (a + 2 ^ j, j) b" if "b \<in> B" for b
    using tiling_disj [OF t, of "(a, j)" b] tiling_disj [OF t, of "(a + 2 ^ j, j)" b] that n1 n2
    by auto
  have new: "disj (a, Suc j) b" if "b \<in> B" for b
    using d1 [OF that] d2 [OF that] by (rule disj_merge_aux)
  show "(a, Suc j) \<notin> B"
  proof
    assume "(a, Suc j) \<in> B"
    from d1 [OF this] show False by (simp add: disj_def)
  qed
  show "tiling c km (insert (a, Suc j) B)"
  proof (rule tilingI)
    fix b assume "b \<in> insert (a, Suc j) B"
    then consider "b = (a, Suc j)" | "b \<in> B" by blast
    then show "wf_blk c km b"
    proof cases
      case 1 then show ?thesis using w1 w2 al j by (simp add: wf_blk_def)
    next
      case 2 then show ?thesis using tiling_wf [OF t, of b] by simp
    qed
  next
    fix b b' assume b: "b \<in> insert (a, Suc j) B" and b': "b' \<in> insert (a, Suc j) B"
      and ne: "b \<noteq> b'"
    have BB: "disj b b'" if "b \<in> B" "b' \<in> B"
      using tiling_disj [OF t, of b b'] that ne by simp
    from b b' ne show "disj b b'"
      by (metis insertE new BB disj_sym)
  next
    fix x :: nat assume "x < 2 ^ km"
    from tiling_covers [OF t this] obtain b where b: "b \<in> ?B" "covers b x"
      by blast
    then consider "b = (a, j)" | "b = (a + 2 ^ j, j)" | "b \<in> B" by blast
    then show "\<exists>b\<in>insert (a, Suc j) B. covers b x"
    proof cases
      case 1 then have "covers (a, Suc j) x" using b(2) by (simp add: covers_def)
      then show ?thesis by blast
    next
      case 2 then have "covers (a, Suc j) x" using b(2) by (simp add: covers_def)
      then show ?thesis by blast
    next
      case 3 then show ?thesis using b(2) by blast
    qed
  qed
qed

lemma aligned_same:
  fixes x y :: nat
  assumes "2 ^ j dvd x" "2 ^ j dvd y" "x \<le> y" "y < x + 2 ^ j"
  shows "x = y"
proof (rule ccontr)
  assume "x \<noteq> y"
  then have "x < y" using assms(3) by simp
  from mult_gap [OF assms(1,2) this] assms(4) show False by simp
qed

text \<open>The parent of an aligned block and of its buddy.\<close>

lemma buddy_parent:
  fixes a :: nat
  assumes al: "2 ^ k dvd a" and top: "a + 2 ^ k \<le> 2 ^ km" and k: "k < km"
  obtains l where "2 ^ Suc k dvd l" "l + 2 ^ Suc k \<le> 2 ^ km"
    "(a = l \<and> a XOR 2 ^ k = l + 2 ^ k) \<or> (a = l + 2 ^ k \<and> a XOR 2 ^ k = l)"
proof -
  have km: "(2::nat) ^ Suc k dvd 2 ^ km" using k by (intro le_imp_power_dvd) simp
  from al show ?thesis
  proof (cases rule: xor_pow2_cases)
    case low
    have "a < 2 ^ km" using top by (simp add: less_le_trans [of a "a + 2 ^ k"])
    with low(1) km have "a + 2 ^ Suc k \<le> 2 ^ km" by (intro mult_gap) simp_all
    with low show ?thesis by (intro that [of a]) simp_all
  next
    case high
    then show ?thesis using top by (intro that [of "a - 2 ^ k"]) simp_all
  qed
qed

lemma tiling_buddy:
  assumes t: "tiling c km B" and a: "(a, k) \<in> B" and k: "k < km"
  shows "\<exists>j\<le>k. (a XOR 2 ^ k, j) \<in> B"
proof -
  define b where "b = a XOR 2 ^ k"
  have w: "2 ^ k dvd a" "a + 2 ^ k \<le> 2 ^ km"
    using tiling_wf [OF t a] by (simp_all add: wf_blk_def)
  from w k obtain l where l: "2 ^ Suc k dvd l" "l + 2 ^ Suc k \<le> 2 ^ km"
    "(a = l \<and> b = l + 2 ^ k) \<or> (a = l + 2 ^ k \<and> b = l)"
    unfolding b_def by (rule buddy_parent)
  have lb: "l \<le> b" "b < l + 2 ^ Suc k" "l \<le> a" "a < l + 2 ^ Suc k" "2 ^ k dvd b"
    using l(3) l(1) w(1) by (auto intro: pow2_dvd_mono [of k "Suc k"])
  have "b < 2 ^ km" using lb(2) l(2) by simp
  from tiling_covers [OF t this] obtain x j where xj: "(x, j) \<in> B" "x \<le> b" "b < x + 2 ^ j"
    by (auto simp: covers_def)
  have wx: "2 ^ j dvd x" using tiling_wf [OF t xj(1)] by (simp add: wf_blk_def)
  show ?thesis
  proof (cases "j \<le> k")
    case True
    have "2 ^ j dvd b" using True lb(5) by (rule pow2_dvd_mono)
    with wx have "x = b" using xj(2,3) by (rule aligned_same)
    then show ?thesis using xj(1) True by (auto simp: b_def)
  next
    case False
    then have jk: "Suc k \<le> j" by simp
    have x2: "2 ^ Suc k dvd x" using jk wx by (rule pow2_dvd_mono)
    have "(2::nat) ^ Suc k dvd 2 ^ j" using jk by (rule le_imp_power_dvd)
    with x2 have e2: "2 ^ Suc k dvd x + 2 ^ j" by (rule dvd_add)
    have "x \<le> l"
    proof (rule ccontr)
      assume "\<not> x \<le> l"
      then have "l < x" by simp
      from mult_gap [OF l(1) x2 this] lb(2) xj(2) show False by simp
    qed
    moreover have "l + 2 ^ Suc k \<le> x + 2 ^ j"
    proof -
      have "l < x + 2 ^ j" using lb(1) xj(3) by simp
      from mult_gap [OF l(1) e2 this] show ?thesis .
    qed
    ultimately have "covers (x, j) a" using lb(3,4) by (simp add: covers_def)
    moreover have "(x, j) \<noteq> (a, k)" using False by auto
    then have "disj (x, j) (a, k)" using tiling_disj [OF t xj(1) a] by simp
    ultimately show ?thesis using covers_not_disj by blast
  qed
qed

section \<open>Addresses and primitive steps\<close>

subsection \<open>Addresses\<close>

lemma pool_ok_lt64: "pool_ok c st \<Longrightarrow> kval_m st < 64"
  by (simp add: pool_ok_def cfg_ok_def)

lemma pow_km_lt: "pool_ok c st \<Longrightarrow> (2::nat) ^ kval_m st < 2 ^ 64"
  using pool_ok_lt64 [of c st] by (intro power_strict_increasing) simp_all

lemma unat_of_nat64: "x < 2 ^ 64 \<Longrightarrow> unat (of_nat x :: 64 word) = x"
  by (simp add: unat_of_nat)

lemma unat_pow2: 
  assumes "n < 64" shows "unat (2 ^ n :: 64 word) = 2 ^ n"
proof -
  have "(2::nat) ^ n < 2 ^ 64" using assms by (intro power_strict_increasing) simp_all
  then have "unat (of_nat (2 ^ n) :: 64 word) = 2 ^ n" by (rule unat_of_nat64)
  then show ?thesis by simp
qed

lemma unat_numbytes: "pool_ok c st \<Longrightarrow> unat (numbytes st) = 2 ^ kval_m st"
  using pool_ok_lt64 [of c st] by (simp add: pool_ok_def unat_pow2)

lemma addr_sub_base: "addr st x - base st = of_nat x"
  by (simp add: addr_def)

lemma off_addr: "x < 2 ^ 64 \<Longrightarrow> unat (addr st x - base st) = x"
  by (simp add: addr_sub_base unat_of_nat64)

lemma unat_addr:
  assumes ok: "pool_ok c st" and x: "x < 2 ^ kval_m st"
  shows "unat (addr st x) = unat (base st) + x"
proof -
  have x64: "x < 2 ^ 64" using x pow_km_lt [OF ok] by simp
  have "unat (base st) + x < 2 ^ 64" using ok x by (simp add: pool_ok_def)
  then have "unat (base st) + unat (of_nat x :: 64 word) < 2 ^ LENGTH(64)"
    by (simp add: unat_of_nat64 [OF x64])
  then have "unat (base st + of_nat x) = unat (base st) + unat (of_nat x :: 64 word)"
    by (simp only: unat_add_lem [THEN iffD1])
  then show ?thesis by (simp add: addr_def unat_of_nat64 [OF x64])
qed

lemma addr_inj:
  assumes "pool_ok c st" "x < 2 ^ kval_m st" "y < 2 ^ kval_m st"
  shows "addr st x = addr st y \<longleftrightarrow> x = y"
proof
  assume "addr st x = addr st y"
  then have "unat (addr st x) = unat (addr st y)" by simp
  then show "x = y" using assms by (simp add: unat_addr)
qed simp

lemma addr_less:
  assumes "pool_ok c st" "x < 2 ^ kval_m st" "y < 2 ^ kval_m st"
  shows "addr st x < addr st y \<longleftrightarrow> x < y"
  using assms by (simp add: word_less_nat_alt unat_addr)

lemma addr_nonzero:
  assumes "pool_ok c st" "x < 2 ^ kval_m st"
  shows "addr st x \<noteq> 0"
proof
  assume "addr st x = 0"
  then have "unat (addr st x) = 0" by simp
  then have "unat (base st) = 0" using assms by (simp add: unat_addr)
  then show False using assms(1) by (simp add: pool_ok_def unat_eq_0)
qed

lemma addr_plus: "addr st x + of_nat y = addr st (x + y)"
  by (simp add: addr_def)

lemma addr_plus_pow: "addr st x + 2 ^ j = addr st (x + 2 ^ j)"
  by (simp add: addr_def)

lemma addr_buddy:
  "base st + ((addr st x - base st) XOR 2 ^ k) = addr st (x XOR 2 ^ k)"
proof -
  have "(of_nat x :: 64 word) XOR 2 ^ k = of_nat (x XOR 2 ^ k)"
    by (simp add: of_nat_xor_eq)
  then show ?thesis by (simp add: addr_def)
qed

lemma in_arena_addr:
  assumes ok: "pool_ok c st" and x: "x + hdr c \<le> 2 ^ kval_m st"
  shows "in_arena c st (addr st x)"
proof -
  have "x < 2 ^ 64" using x pow_km_lt [OF ok] by simp
  then show ?thesis
    using ok x by (simp add: in_arena_def off_addr unat_numbytes) (simp add: pool_ok_def)
qed

lemma wf_blk_hdr:
  assumes "cfg_ok c" "wf_blk c km b"
  shows "fst b + hdr c < fst b + 2 ^ snd b" "fst b + hdr c \<le> 2 ^ km" "fst b < 2 ^ km"
proof -
  have "hdr c < 2 ^ SMALLEST_K c" using assms(1) by (simp add: cfg_ok_def)
  also have "(2::nat) ^ SMALLEST_K c \<le> 2 ^ snd b"
    using assms(2) by (simp add: wf_blk_def power_increasing)
  finally have h: "hdr c < 2 ^ snd b" .
  then show "fst b + hdr c < fst b + 2 ^ snd b" by simp
  have t: "fst b + 2 ^ snd b \<le> 2 ^ km" using assms(2) by (simp add: wf_blk_def)
  with h show "fst b + hdr c \<le> 2 ^ km" by simp
  from h t show "fst b < 2 ^ km" by simp
qed

lemma valid_blk:
  assumes "pool_ok c st" "wf_blk c (kval_m st) b"
  shows "valid c st (Addr (addr st (fst b)))"
proof -
  have "cfg_ok c" using assms(1) by (simp add: pool_ok_def)
  from wf_blk_hdr(2) [OF this assms(2)] show ?thesis
    using assms(1) by (simp add: valid_def in_arena_addr)
qed

lemma valid_sent: "i < MAX_K c \<Longrightarrow> valid c st (Sent i)"
  by (simp add: valid_def)

subsection \<open>Header updates do not move the arena\<close>

lemma heap_upd_simps [simp]:
  "valid c (st\<lparr>heap := h\<rparr>) p = valid c st p"
  "addr (st\<lparr>heap := h\<rparr>) x = addr st x"
  "nodes (st\<lparr>heap := h\<rparr>) xs = nodes st xs"
  "pool_ok c (st\<lparr>heap := h\<rparr>) = pool_ok c st"
  by (simp_all add: valid_def in_arena_def addr_def nodes_def pool_ok_def split: ptr.splits)

lemma dll_heap_upd [simp]: "dll (st\<lparr>heap := h\<rparr>) i xs = dllp h (Sent i) (nodes st xs)"
  by (simp add: dll_def)

lemma hdr_is_heap_upd [simp]:
  "hdr_is (st\<lparr>heap := h\<rparr>) t b \<longleftrightarrow> tag (h (Addr (addr st (fst b)))) = t \<and> kval (h (Addr (addr st (fst b)))) = snd b"
  by (simp add: hdr_is_def)

subsection \<open>The primitives on valid pointers\<close>

lemma rd_valid: "valid c st p \<Longrightarrow> rd c st p = Some (heap st p)"
  by (simp add: rd_def)

lemma wr_valid:
  "valid c st p \<Longrightarrow> wr c st p f = Some (st\<lparr>heap := (heap st)(p := f (heap st p))\<rparr>)"
  by (simp add: wr_def)

lemma unlink_valid:
  assumes "valid c st p" "valid c st (prev (heap st p))" "valid c st (next (heap st p))"
  shows "unlink c st p = Some (st\<lparr>heap := unlink_h (heap st) p\<rparr>)"
  using assms by (simp add: unlink_def rd_def wr_def unlink_h_def Let_def)

lemma push_front_valid:
  assumes "valid c st (Sent i)" "valid c st p" "valid c st (next (heap st (Sent i)))"
    and "p \<noteq> Sent i"
  shows "push_front c st i p = Some (st\<lparr>heap := push_h (heap st) (Sent i) p\<rparr>)"
  using assms by (simp add: push_front_def rd_def wr_def push_h_def Let_def)

lemma shl1_lt: "n < 64 \<Longrightarrow> shl1 n = Some (2 ^ n)"
  by (simp add: shl1_def)

lemma buddy_calc_valid:
  assumes "valid c st (Addr (addr st x))" "kval (heap st (Addr (addr st x))) = k" "k < 64"
  shows "buddy_calc c st (addr st x) = Some (addr st (x XOR 2 ^ k))"
  using assms by (simp add: buddy_calc_def rd_valid shl1_lt addr_buddy)

section \<open>The invariant\<close>

subsection \<open>Consequences of the invariant\<close>

lemma pinv_pool_ok: "pinv c st fl R D \<Longrightarrow> pool_ok c st"
  by (simp add: pinv_def)

lemma pinv_tiling: "pinv c st fl R D \<Longrightarrow> tiling c (kval_m st) (free_blks fl \<union> R \<union> D)"
  by (simp add: pinv_def)

lemma free_blks_iff: "(a, i) \<in> free_blks fl \<longleftrightarrow> a \<in> set (fl i)"
  by (simp add: free_blks_def)

lemma pinv_wf:
  assumes "pinv c st fl R D" "b \<in> free_blks fl \<union> R \<union> D"
  shows "wf_blk c (kval_m st) b"
  using assms tiling_wf [OF pinv_tiling] by blast

lemma pinv_lt:
  assumes "pinv c st fl R D" "b \<in> free_blks fl \<union> R \<union> D"
  shows "fst b < 2 ^ kval_m st" "snd b < MAX_K c" "snd b \<le> kval_m st"
proof -
  have ok: "pool_ok c st" using assms(1) by (rule pinv_pool_ok)
  then have c: "cfg_ok c" by (simp add: pool_ok_def)
  have w: "wf_blk c (kval_m st) b" using assms by (rule pinv_wf)
  show "fst b < 2 ^ kval_m st" using wf_blk_hdr(3) [OF c w] .
  show "snd b \<le> kval_m st" using w by (simp add: wf_blk_def)
  then show "snd b < MAX_K c" using ok by (simp add: pool_ok_def)
qed

lemma pinv_valid:
  assumes "pinv c st fl R D" "b \<in> free_blks fl \<union> R \<union> D"
  shows "valid c st (Addr (addr st (fst b)))"
  using valid_blk [OF pinv_pool_ok [OF assms(1)] pinv_wf [OF assms]] .

lemma pinv_offsets_differ:
  assumes p: "pinv c st fl R D" and b: "b \<in> free_blks fl \<union> R \<union> D"
    and b': "b' \<in> free_blks fl \<union> R \<union> D" and ne: "b \<noteq> b'"
  shows "fst b \<noteq> fst b'" "addr st (fst b) \<noteq> addr st (fst b')"
proof -
  have "disj b b'" using tiling_disj [OF pinv_tiling [OF p] b b' ne] .
  moreover have "(0::nat) < 2 ^ snd b" "(0::nat) < 2 ^ snd b'" by simp_all
  ultimately show "fst b \<noteq> fst b'" unfolding disj_def by linarith
  then show "addr st (fst b) \<noteq> addr st (fst b')"
    using addr_inj [OF pinv_pool_ok [OF p] pinv_lt(1) [OF p b] pinv_lt(1) [OF p b']] by simp
qed

lemma pinv_dll: "pinv c st fl R D \<Longrightarrow> i < MAX_K c \<Longrightarrow> dllp (heap st) (Sent i) (nodes st (fl i))"
  by (simp add: pinv_def dll_def)

lemma nodes_mem: "Addr p \<in> set (nodes st xs) \<longleftrightarrow> (\<exists>x\<in>set xs. p = addr st x)"
  by (auto simp: nodes_def)

lemma sent_not_node: "Sent i \<notin> set (nodes st xs)"
  by (auto simp: nodes_def)

lemma pinv_distinct_nodes:
  assumes p: "pinv c st fl R D"
  shows "distinct (Sent i # nodes st (fl i))"
proof -
  have "inj_on (\<lambda>x. Addr (addr st x)) (set (fl i))"
  proof (rule inj_onI)
    fix x y assume x: "x \<in> set (fl i)" and y: "y \<in> set (fl i)"
      and e: "Addr (addr st x) = Addr (addr st y)"
    have "(x, i) \<in> free_blks fl \<union> R \<union> D" "(y, i) \<in> free_blks fl \<union> R \<union> D"
      using x y by (simp_all add: free_blks_iff)
    from pinv_lt(1) [OF p this(1)] pinv_lt(1) [OF p this(2)] e
    show "x = y" using addr_inj [OF pinv_pool_ok [OF p], of x y] by simp
  qed
  moreover have "distinct (fl i)" using p by (simp add: pinv_def)
  ultimately have "distinct (nodes st (fl i))" by (simp add: nodes_def distinct_map)
  then show ?thesis by (simp add: sent_not_node)
qed

lemma pinv_node_valid:
  assumes p: "pinv c st fl R D" and i: "i < MAX_K c" and q: "q \<in> set (Sent i # nodes st (fl i))"
  shows "valid c st q"
proof (cases q)
  case (Sent j)
  then show ?thesis using q i by (simp add: sent_not_node valid_sent)
next
  case (Addr w)
  then obtain x where x: "x \<in> set (fl i)" "w = addr st x" using q by (auto simp: nodes_mem)
  have "(x, i) \<in> free_blks fl \<union> R \<union> D" using x(1) by (simp add: free_blks_iff)
  from pinv_valid [OF p this] show ?thesis by (simp add: Addr x(2))
qed

text \<open>A pointer on list \<open>j\<close> is not on list \<open>i\<close>, and is not a block outside the lists.\<close>

lemma pinv_lists_apart:
  assumes p: "pinv c st fl R D" and ij: "i \<noteq> j"
    and q: "q \<in> set (Sent j # nodes st (fl j))"
  shows "q \<notin> set (Sent i # nodes st (fl i))"
proof
  assume q': "q \<in> set (Sent i # nodes st (fl i))"
  show False
  proof (cases q)
    case (Sent n)
    then show ?thesis using q q' ij by (simp add: sent_not_node)
  next
    case (Addr w)
    then obtain x y where x: "x \<in> set (fl j)" "w = addr st x" and y: "y \<in> set (fl i)" "w = addr st y"
      using q q' by (auto simp: nodes_mem)
    have "(x, j) \<in> free_blks fl \<union> R \<union> D" "(y, i) \<in> free_blks fl \<union> R \<union> D" "(x, j) \<noteq> (y, i)"
      using x(1) y(1) ij by (simp_all add: free_blks_iff)
    from pinv_offsets_differ(2) [OF p this] show False using x(2) y(2) by simp
  qed
qed

lemma pinv_list_not_block:
  assumes p: "pinv c st fl R D" and b: "b \<in> R \<union> D"
  shows "Addr (addr st (fst b)) \<notin> set (Sent j # nodes st (fl j))"
proof
  assume "Addr (addr st (fst b)) \<in> set (Sent j # nodes st (fl j))"
  then obtain x where x: "x \<in> set (fl j)" "addr st (fst b) = addr st x"
    by (auto simp: nodes_mem)
  have xb: "(x, j) \<in> free_blks fl" using x(1) by (simp add: free_blks_iff)
  have "(x, j) \<noteq> b"
  proof
    assume e: "(x, j) = b"
    have "b \<notin> D" using p xb e by (auto simp: pinv_def)
    then have "b \<in> R" using b by simp
    then have "hdr_is st BLOCK_RESERVED b" using p by (simp add: pinv_def)
    moreover have "hdr_is st BLOCK_AVAIL b" using p xb e by (auto simp: pinv_def)
    ultimately show False by (simp add: hdr_is_def)
  qed
  moreover have "(x, j) \<in> free_blks fl \<union> R \<union> D" "b \<in> free_blks fl \<union> R \<union> D"
    using xb b by auto
  ultimately show False using pinv_offsets_differ(2) [OF p, of "(x, j)" b] x(2) by simp
qed

subsection \<open>Steps that keep the invariant\<close>

lemma map_remove1_inj:
  "inj_on f (insert a (set xs)) \<Longrightarrow> map f (remove1 a xs) = remove1 (f a) (map f xs)"
  by (induction xs) (auto simp: inj_on_def)

lemma pinv_inj:
  assumes p: "pinv c st fl R D"
  shows "inj_on (\<lambda>x. Addr (addr st x)) (set (fl i))"
proof (rule inj_onI)
  fix x y assume x: "x \<in> set (fl i)" and y: "y \<in> set (fl i)"
    and e: "Addr (addr st x) = Addr (addr st y)"
  have "(x, i) \<in> free_blks fl \<union> R \<union> D" "(y, i) \<in> free_blks fl \<union> R \<union> D"
    using x y by (simp_all add: free_blks_iff)
  from pinv_lt(1) [OF p this(1)] pinv_lt(1) [OF p this(2)] e
  show "x = y" using addr_inj [OF pinv_pool_ok [OF p], of x y] by simp
qed

lemma nodes_remove1:
  assumes p: "pinv c st fl R D" and a: "a \<in> set (fl i)"
  shows "nodes st (remove1 a (fl i)) = remove1 (Addr (addr st a)) (nodes st (fl i))"
proof -
  have "insert a (set (fl i)) = set (fl i)" using a by auto
  then have "inj_on (\<lambda>x. Addr (addr st x)) (insert a (set (fl i)))"
    using pinv_inj [OF p, of i] by simp
  then show ?thesis unfolding nodes_def by (rule map_remove1_inj)
qed

lemma free_blks_remove1:
  assumes "distinct (fl i)"
  shows "free_blks (fl(i := remove1 a (fl i))) = free_blks fl - {(a, i)}"
  using assms by (auto simp: free_blks_def)

lemma free_blks_cons:
  "free_blks (fl(i := a # fl i)) = insert (a, i) (free_blks fl)"
  by (auto simp: free_blks_def)

lemma pinv_free_not_reserved:
  assumes p: "pinv c st fl R D" and a: "a \<in> set (fl i)"
  shows "(a, i) \<notin> R" "(a, i) \<notin> D" "hdr_is st BLOCK_AVAIL (a, i)"
proof -
  have f: "(a, i) \<in> free_blks fl" using a by (simp add: free_blks_iff)
  show h: "hdr_is st BLOCK_AVAIL (a, i)" using p f by (simp add: pinv_def)
  show "(a, i) \<notin> D" using p f by (auto simp: pinv_def)
  show "(a, i) \<notin> R"
  proof
    assume "(a, i) \<in> R"
    then have "hdr_is st BLOCK_RESERVED (a, i)" using p by (simp add: pinv_def)
    with h show False by (simp add: hdr_is_def)
  qed
qed

lemma pinv_unlink:
  assumes p: "pinv c st fl R D" and a: "a \<in> set (fl i)"
  shows "unlink c st (Addr (addr st a)) = Some (st\<lparr>heap := unlink_h (heap st) (Addr (addr st a))\<rparr>)"
    and "pinv c (st\<lparr>heap := unlink_h (heap st) (Addr (addr st a))\<rparr>)
           (fl(i := remove1 a (fl i))) R (insert (a, i) D)"
proof -
  let ?x = "Addr (addr st a)"
  let ?h = "heap st"
  let ?st = "st\<lparr>heap := unlink_h ?h ?x\<rparr>"
  let ?fl = "fl(i := remove1 a (fl i))"
  have ai: "(a, i) \<in> free_blks fl \<union> R \<union> D" using a by (simp add: free_blks_iff)
  have i: "i < MAX_K c" using pinv_lt(2) [OF p ai] by simp
  have d: "dllp ?h (Sent i) (nodes st (fl i))" using pinv_dll [OF p i] .
  have xin: "?x \<in> set (nodes st (fl i))" using a by (auto simp: nodes_mem)
  have links: "next (?h ?x) \<in> set (Sent i # nodes st (fl i))"
    "prev (?h ?x) \<in> set (Sent i # nodes st (fl i))"
    using dllp_links [OF d xin] .
  have v: "valid c st ?x" "valid c st (prev (?h ?x))" "valid c st (next (?h ?x))"
    using pinv_valid [OF p ai] pinv_node_valid [OF p i links(2)] pinv_node_valid [OF p i links(1)]
    by simp_all
  show "unlink c st ?x = Some ?st" using v by (rule unlink_valid)
  have dist: "distinct (fl i)" using p by (simp add: pinv_def)
  have fb: "free_blks ?fl = free_blks fl - {(a, i)}" using dist by (rule free_blks_remove1)
  have nr: "(a, i) \<notin> R" "(a, i) \<notin> D" using pinv_free_not_reserved [OF p a] by simp_all
  have dlls: "dll ?st j (?fl j)" if j: "j < MAX_K c" for j
  proof (cases "j = i")
    case True
    have "dllp (unlink_h ?h ?x) (Sent i) (remove1 ?x (nodes st (fl i)))"
      using d pinv_distinct_nodes [OF p] xin by (rule dllp_unlink)
    then show ?thesis using True by (simp add: nodes_remove1 [OF p a])
  next
    case False
    have "dllp (unlink_h ?h ?x) (Sent j) (nodes st (fl j))"
    proof (rule dllp_frame [OF pinv_dll [OF p j]])
      fix q assume q: "q \<in> set (Sent j # nodes st (fl j))"
      have "q \<notin> set (Sent i # nodes st (fl i))"
        using pinv_lists_apart [OF p _ q, of i] False by simp
      then have "q \<noteq> prev (?h ?x)" "q \<noteq> next (?h ?x)" using links by auto
      then show "next (unlink_h ?h ?x q) = next (?h q)" "prev (unlink_h ?h ?x q) = prev (?h q)"
        by (simp_all add: unlink_h_next unlink_h_prev)
    qed
    then show ?thesis using False by simp
  qed
  have sets: "free_blks ?fl \<union> R \<union> insert (a, i) D = free_blks fl \<union> R \<union> D"
    using a by (auto simp: fb free_blks_iff)
  show "pinv c ?st ?fl R (insert (a, i) D)"
    unfolding pinv_def
  proof (intro conjI)
    show "pool_ok c ?st" using pinv_pool_ok [OF p] by simp
    show "\<forall>j<MAX_K c. dll ?st j (?fl j)" using dlls by blast
    show "\<forall>j. distinct (?fl j)" using p by (simp add: pinv_def)
    show "tiling c (kval_m ?st) (free_blks ?fl \<union> R \<union> insert (a, i) D)"
      using pinv_tiling [OF p] by (simp only: sets) simp
    show "free_blks ?fl \<inter> insert (a, i) D = {}" using p by (auto simp: fb pinv_def)
    show "R \<inter> insert (a, i) D = {}" using p nr by (auto simp: pinv_def)
    show "\<forall>b\<in>free_blks ?fl. hdr_is ?st BLOCK_AVAIL b"
      using p by (auto simp: fb pinv_def unlink_h_tag unlink_h_kval hdr_is_def)
    show "\<forall>b\<in>R. hdr_is ?st BLOCK_RESERVED b"
      using p by (auto simp: pinv_def unlink_h_tag unlink_h_kval hdr_is_def)
  qed
qed

lemma pinv_push:
  assumes p: "pinv c st fl R D" and b: "(a, i) \<in> D" and h: "hdr_is st BLOCK_AVAIL (a, i)"
  shows "push_front c st i (Addr (addr st a)) =
           Some (st\<lparr>heap := push_h (heap st) (Sent i) (Addr (addr st a))\<rparr>)"
    and "pinv c (st\<lparr>heap := push_h (heap st) (Sent i) (Addr (addr st a))\<rparr>)
           (fl(i := a # fl i)) R (D - {(a, i)})"
proof -
  let ?x = "Addr (addr st a)"
  let ?h = "heap st"
  let ?st = "st\<lparr>heap := push_h ?h (Sent i) ?x\<rparr>"
  let ?fl = "fl(i := a # fl i)"
  have ai: "(a, i) \<in> free_blks fl \<union> R \<union> D" using b by simp
  have i: "i < MAX_K c" using pinv_lt(2) [OF p ai] by simp
  have d: "dllp ?h (Sent i) (nodes st (fl i))" using pinv_dll [OF p i] .
  have xnot: "?x \<notin> set (Sent j # nodes st (fl j))" for j
    using pinv_list_not_block [OF p, of "(a, i)" j] b by simp
  have hd: "next (?h (Sent i)) \<in> set (Sent i # nodes st (fl i))"
    using dllp_head [OF d] by (cases "nodes st (fl i)") auto
  have v: "valid c st (Sent i)" "valid c st ?x" "valid c st (next (?h (Sent i)))"
    using valid_sent [OF i] pinv_valid [OF p ai] pinv_node_valid [OF p i hd] by simp_all
  show "push_front c st i ?x = Some ?st" using v by (rule push_front_valid) simp
  have anot: "a \<notin> set (fl i)" using p b by (auto simp: pinv_def free_blks_def)
  have dlls: "dll ?st j (?fl j)" if j: "j < MAX_K c" for j
  proof (cases "j = i")
    case True
    have "dllp (push_h ?h (Sent i) ?x) (Sent i) (?x # nodes st (fl i))"
      using d xnot pinv_distinct_nodes [OF p] by (rule dllp_push)
    then show ?thesis using True by (simp add: nodes_def)
  next
    case False
    have xs: "?x \<noteq> Sent i" by simp
    have hx: "next (?h (Sent i)) \<noteq> ?x" using hd xnot [of i] by auto
    have "dllp (push_h ?h (Sent i) ?x) (Sent j) (nodes st (fl j))"
    proof (rule dllp_frame [OF pinv_dll [OF p j]])
      fix q assume q: "q \<in> set (Sent j # nodes st (fl j))"
      have "q \<notin> set (Sent i # nodes st (fl i))"
        using pinv_lists_apart [OF p _ q, of i] False by simp
      then have "q \<noteq> Sent i" "q \<noteq> next (?h (Sent i))" using hd by auto
      moreover have "q \<noteq> ?x" using xnot [of j] q by auto
      ultimately show "next (push_h ?h (Sent i) ?x q) = next (?h q)"
        "prev (push_h ?h (Sent i) ?x q) = prev (?h q)"
        by (simp_all add: push_h_next [OF xs] push_h_prev [where h = "?h", OF xs hx])
    qed
    then show ?thesis using False by simp
  qed
  have sets: "free_blks ?fl \<union> R \<union> (D - {(a, i)}) = free_blks fl \<union> R \<union> D"
    using b by (auto simp: free_blks_cons)
  have nr: "(a, i) \<notin> R" using p b by (auto simp: pinv_def)
  show "pinv c ?st ?fl R (D - {(a, i)})"
    unfolding pinv_def
  proof (intro conjI)
    show "pool_ok c ?st" using pinv_pool_ok [OF p] by simp
    show "\<forall>j<MAX_K c. dll ?st j (?fl j)" using dlls by blast
    show "\<forall>j. distinct (?fl j)" using p anot by (simp add: pinv_def)
    show "tiling c (kval_m ?st) (free_blks ?fl \<union> R \<union> (D - {(a, i)}))"
      using pinv_tiling [OF p] by (simp only: sets) simp
    show "free_blks ?fl \<inter> (D - {(a, i)}) = {}" using p by (auto simp: free_blks_cons pinv_def)
    show "R \<inter> (D - {(a, i)}) = {}" using p by (auto simp: pinv_def)
    show "\<forall>b\<in>free_blks ?fl. hdr_is ?st BLOCK_AVAIL b"
      using p h by (auto simp: free_blks_cons pinv_def push_h_tag push_h_kval hdr_is_def)
    show "\<forall>b\<in>R. hdr_is ?st BLOCK_RESERVED b"
      using p by (auto simp: pinv_def push_h_tag push_h_kval hdr_is_def)
  qed
qed

lemma pinv_wr_detached:
  assumes p: "pinv c st fl R D" and b: "b \<in> D"
    and f: "\<And>h. next (f h) = next h" "\<And>h. prev (f h) = prev h"
  shows "wr c st (Addr (addr st (fst b))) f =
           Some (st\<lparr>heap := (heap st)(Addr (addr st (fst b)) := f (heap st (Addr (addr st (fst b)))))\<rparr>)"
    and "pinv c (st\<lparr>heap := (heap st)(Addr (addr st (fst b)) := f (heap st (Addr (addr st (fst b)))))\<rparr>)
           fl R D"
proof -
  let ?x = "Addr (addr st (fst b))"
  let ?h = "heap st"
  let ?h' = "?h(?x := f (?h ?x))"
  let ?st = "st\<lparr>heap := ?h'\<rparr>"
  have bi: "b \<in> free_blks fl \<union> R \<union> D" using b by simp
  show "wr c st ?x f = Some ?st" using pinv_valid [OF p bi] by (rule wr_valid)
  have links: "next (?h' q) = next (?h q)" "prev (?h' q) = prev (?h q)" for q
    by (simp_all add: f)
  have other: "?h' (Addr (addr st (fst b'))) = ?h (Addr (addr st (fst b')))"
    if "b' \<in> free_blks fl \<union> R" for b'
  proof -
    have "b' \<noteq> b" using p b that by (auto simp: pinv_def)
    moreover have "b' \<in> free_blks fl \<union> R \<union> D" using that by auto
    ultimately have "addr st (fst b') \<noteq> addr st (fst b)"
      using pinv_offsets_differ(2) [OF p _ bi] by blast
    then show ?thesis by simp
  qed
  show "pinv c ?st fl R D"
    unfolding pinv_def
  proof (intro conjI)
    show "pool_ok c ?st" using pinv_pool_ok [OF p] by simp
    show "\<forall>j<MAX_K c. dll ?st j (fl j)"
    proof (intro allI impI)
      fix j assume j: "j < MAX_K c"
      have "dllp ?h' (Sent j) (nodes st (fl j))"
        by (rule dllp_frame [OF pinv_dll [OF p j]]) (rule links)+
      then show "dll ?st j (fl j)" by simp
    qed
    show "\<forall>j. distinct (fl j)" using p by (simp add: pinv_def)
    show "tiling c (kval_m ?st) (free_blks fl \<union> R \<union> D)" using pinv_tiling [OF p] by simp
    show "free_blks fl \<inter> D = {}" "R \<inter> D = {}" using p by (simp_all add: pinv_def)
    show "\<forall>b\<in>free_blks fl. hdr_is ?st BLOCK_AVAIL b"
    proof
      fix b' assume b': "b' \<in> free_blks fl"
      then have "hdr_is st BLOCK_AVAIL b'" using p by (simp add: pinv_def)
      then show "hdr_is ?st BLOCK_AVAIL b'"
        using other [of b'] b' by (simp add: hdr_is_def)
    qed
    show "\<forall>b\<in>R. hdr_is ?st BLOCK_RESERVED b"
    proof
      fix b' assume b': "b' \<in> R"
      then have "hdr_is st BLOCK_RESERVED b'" using p by (simp add: pinv_def)
      then show "hdr_is ?st BLOCK_RESERVED b'"
        using other [of b'] b' by (simp add: hdr_is_def)
    qed
  qed
qed

subsection \<open>Moving blocks between the handed-out set and the detached set\<close>

lemma pinv_reserve:
  assumes p: "pinv c st fl R D" and b: "b \<in> D" and h: "hdr_is st BLOCK_RESERVED b"
  shows "pinv c st fl (insert b R) (D - {b})"
proof -
  have "free_blks fl \<union> insert b R \<union> (D - {b}) = free_blks fl \<union> R \<union> D" using b by auto
  then show ?thesis using p b h unfolding pinv_def by (simp only:) auto
qed

lemma pinv_release:
  assumes p: "pinv c st fl R D" and b: "b \<in> R"
  shows "pinv c st fl (R - {b}) (insert b D)"
proof -
  have "free_blks fl \<union> (R - {b}) \<union> insert b D = free_blks fl \<union> R \<union> D" using b by auto
  moreover have "b \<notin> free_blks fl"
  proof
    assume f: "b \<in> free_blks fl"
    have "hdr_is st BLOCK_AVAIL b" "hdr_is st BLOCK_RESERVED b"
      using p f b by (simp_all add: pinv_def)
    then show False by (simp add: hdr_is_def)
  qed
  ultimately show ?thesis using p b unfolding pinv_def by (simp only:) auto
qed

lemma pinv_split:
  assumes p: "pinv c st fl R D" and b: "(a, Suc j) \<in> D" and j: "SMALLEST_K c \<le> j"
  shows "pinv c st fl R (insert (a, j) (insert (a + 2 ^ j, j) (D - {(a, Suc j)})))"
proof -
  let ?B = "free_blks fl \<union> R \<union> (D - {(a, Suc j)})"
  have e: "free_blks fl \<union> R \<union> D = insert (a, Suc j) ?B" using b by auto
  have n: "(a, Suc j) \<notin> ?B" using p b by (auto simp: pinv_def)
  have t: "tiling c (kval_m st) (insert (a, Suc j) ?B)" using pinv_tiling [OF p] by (simp only: e)
  note s = tiling_split [OF t n j]
  have e': "free_blks fl \<union> R \<union> insert (a, j) (insert (a + 2 ^ j, j) (D - {(a, Suc j)}))
      = insert (a, j) (insert (a + 2 ^ j, j) ?B)" by auto
  show ?thesis
    unfolding pinv_def
  proof (intro conjI)
    show "tiling c (kval_m st) (free_blks fl \<union> R \<union> insert (a, j) (insert (a + 2 ^ j, j) (D - {(a, Suc j)})))"
      using s(1) by (simp only: e')
    show "free_blks fl \<inter> insert (a, j) (insert (a + 2 ^ j, j) (D - {(a, Suc j)})) = {}"
      using s(2,3) p by (auto simp: pinv_def)
    show "R \<inter> insert (a, j) (insert (a + 2 ^ j, j) (D - {(a, Suc j)})) = {}"
      using s(2,3) p by (auto simp: pinv_def)
  qed (use p in \<open>simp_all add: pinv_def\<close>)
qed

lemma pinv_merge:
  assumes p: "pinv c st fl R D" and b1: "(a, j) \<in> D" and b2: "(a + 2 ^ j, j) \<in> D"
    and al: "2 ^ Suc j dvd a" and j: "j < kval_m st"
  shows "pinv c st fl R (insert (a, Suc j) (D - {(a, j), (a + 2 ^ j, j)}))"
proof -
  let ?D = "D - {(a, j), (a + 2 ^ j, j)}"
  let ?B = "free_blks fl \<union> R \<union> ?D"
  have e: "free_blks fl \<union> R \<union> D = insert (a, j) (insert (a + 2 ^ j, j) ?B)" using b1 b2 by auto
  have n: "(a, j) \<notin> ?B" "(a + 2 ^ j, j) \<notin> ?B" using p b1 b2 by (auto simp: pinv_def)
  have t: "tiling c (kval_m st) (insert (a, j) (insert (a + 2 ^ j, j) ?B))"
    using pinv_tiling [OF p] by (simp only: e)
  note s = tiling_merge [OF t al n j]
  have e': "free_blks fl \<union> R \<union> insert (a, Suc j) ?D = insert (a, Suc j) ?B" by auto
  show ?thesis
    unfolding pinv_def
  proof (intro conjI)
    show "tiling c (kval_m st) (free_blks fl \<union> R \<union> insert (a, Suc j) ?D)"
      using s(1) by (simp only: e')
    show "free_blks fl \<inter> insert (a, Suc j) ?D = {}" using s(2) p by (auto simp: pinv_def)
    show "R \<inter> insert (a, Suc j) ?D = {}" using s(2) p by (auto simp: pinv_def)
  qed (use p in \<open>simp_all add: pinv_def\<close>)
qed

subsection \<open>Free bytes\<close>

lemma free_bytes_cons:
  assumes "i < MAX_K c"
  shows "free_bytes c (fl(i := a # fl i)) = free_bytes c fl + 2 ^ i"
proof -
  have "free_bytes c (fl(i := a # fl i))
      = (\<Sum>j<MAX_K c. length (fl j) * 2 ^ j + (if j = i then 2 ^ i else 0))"
    unfolding free_bytes_def by (rule sum.cong) auto
  also have "\<dots> = free_bytes c fl + (\<Sum>j<MAX_K c. if j = i then 2 ^ i else 0)"
    by (simp add: sum.distrib free_bytes_def)
  also have "(\<Sum>j<MAX_K c. if j = i then 2 ^ i else (0::nat)) = 2 ^ i"
    using assms by (simp add: sum.delta')
  finally show ?thesis .
qed

lemma free_bytes_remove1:
  assumes i: "i < MAX_K c" and a: "a \<in> set (fl i)"
  shows "free_bytes c (fl(i := remove1 a (fl i))) + 2 ^ i = free_bytes c fl"
proof -
  let ?fl = "fl(i := remove1 a (fl i))"
  have "fl = ?fl(i := fl i)" by auto
  moreover have "length (fl i) = length (a # remove1 a (fl i))"
    using a by (simp add: length_remove1) (cases "fl i"; simp)
  ultimately have "free_bytes c fl = free_bytes c (?fl(i := a # ?fl i))"
    unfolding free_bytes_def by (intro sum.cong) auto
  then show ?thesis using free_bytes_cons [OF i, of ?fl a] by simp
qed

section \<open>Allocation keeps the invariant\<close>

lemma pinv_head:
  assumes p: "pinv c st fl R D" and i: "i < MAX_K c"
  shows "next (heap st (Sent i)) = (case fl i of [] \<Rightarrow> Sent i | a # _ \<Rightarrow> Addr (addr st a))"
  using dllp_head [OF pinv_dll [OF p i]] by (cases "fl i") (simp_all add: nodes_def)

lemma find_avail_spec:
  assumes p: "pinv c st fl R D"
  shows "\<exists>i. find_avail c st k = Some i \<and> k \<le> i \<and> (\<forall>j. k \<le> j \<and> j < i \<longrightarrow> fl j = []) \<and>
           (if i \<le> kval_m st then fl i \<noteq> [] else \<forall>j. k \<le> j \<and> j \<le> kval_m st \<longrightarrow> fl j = [])"
proof (induction "kval_m st + 1 - k" arbitrary: k)
  case 0
  then have "\<not> k \<le> kval_m st" by simp
  then have "find_avail c st k = Some k" by (subst find_avail.simps) simp
  then show ?case using \<open>\<not> k \<le> kval_m st\<close> by auto
next
  case (Suc n)
  then have k: "k \<le> kval_m st" by simp
  have "kval_m st < MAX_K c" using pinv_pool_ok [OF p] by (simp add: pool_ok_def)
  then have kM: "k < MAX_K c" using k by simp
  have r: "rd c st (Sent k) = Some (heap st (Sent k))" using valid_sent [OF kM] by (rule rd_valid)
  show ?case
  proof (cases "fl k")
    case Nil
    then have nx: "next (heap st (Sent k)) = Sent k" using pinv_head [OF p kM] by simp
    have f: "find_avail c st k = find_avail c st (k + 1)"
      using k r nx by (subst find_avail.simps) simp
    have "n = kval_m st + 1 - (k + 1)" using Suc(2) by simp
    from Suc(1) [OF this] obtain i where i: "find_avail c st (k + 1) = Some i" "k + 1 \<le> i"
      "\<forall>j. k + 1 \<le> j \<and> j < i \<longrightarrow> fl j = []"
      "if i \<le> kval_m st then fl i \<noteq> [] else \<forall>j. k + 1 \<le> j \<and> j \<le> kval_m st \<longrightarrow> fl j = []"
      by blast
    have a: "\<forall>j. k \<le> j \<and> j < i \<longrightarrow> fl j = []"
    proof (intro allI impI)
      fix j assume "k \<le> j \<and> j < i"
      then show "fl j = []" using i(3) Nil by (cases "j = k") auto
    qed
    have b: "if i \<le> kval_m st then fl i \<noteq> [] else \<forall>j. k \<le> j \<and> j \<le> kval_m st \<longrightarrow> fl j = []"
    proof (cases "i \<le> kval_m st")
      case True
      then show ?thesis using i(4) by simp
    next
      case False
      have "fl j = []" if "k \<le> j \<and> j \<le> kval_m st" for j
        using that i(4) False Nil by (cases "j = k") auto
      then show ?thesis using False by simp
    qed
    show ?thesis using i(1,2) a b by (intro exI [of _ i]) (simp add: f)
  next
    case (Cons a as)
    then have nx: "next (heap st (Sent k)) \<noteq> Sent k" using pinv_head [OF p kM] by simp
    have "find_avail c st k = Some k" using k r nx by (subst find_avail.simps) simp
    then show ?thesis using k Cons by auto
  qed
qed

lemma split_loop_spec:
  assumes p: "pinv c st fl R {(a, i)}" and k: "k \<le> i" and s: "SMALLEST_K c \<le> k"
  shows "\<exists>h'. split_loop c st (addr st a) i k = Some (st\<lparr>heap := h'\<rparr>) \<and>
           pinv c (st\<lparr>heap := h'\<rparr>) (split_lists fl a i k) R {(a, k)} \<and>
           free_bytes c (split_lists fl a i k) + 2 ^ k = free_bytes c fl + 2 ^ i"
  using p k
proof (induction i arbitrary: st fl)
  case 0
  then have "k = 0" by simp
  then have "split_loop c st (addr st a) 0 k = Some st" by (subst split_loop.simps) simp
  moreover have "st = st\<lparr>heap := heap st\<rparr>" by simp
  moreover have "split_lists fl a 0 k = fl" by (simp add: split_lists_def)
  ultimately show ?case using 0(1) \<open>k = 0\<close> by metis
next
  case (Suc j)
  note p = \<open>pinv c st fl R {(a, Suc j)}\<close>
  show ?case
  proof (cases "k = Suc j")
    case True
    then have "split_loop c st (addr st a) (Suc j) k = Some st" by (subst split_loop.simps) simp
    moreover have "st = st\<lparr>heap := heap st\<rparr>" by simp
    moreover have "split_lists fl a (Suc j) k = fl" using True by (auto simp: split_lists_def)
    ultimately show ?thesis using p True by metis
  next
    case False
    then have kj: "k \<le> j" using Suc.prems(2) by simp
    then have sj: "SMALLEST_K c \<le> j" using s by simp
    let ?b = "a + 2 ^ j"
    have ok: "pool_ok c st" using p by (rule pinv_pool_ok)
    have "(a, Suc j) \<in> free_blks fl \<union> R \<union> {(a, Suc j)}" by simp
    from pinv_lt(3) [OF p this] have "Suc j \<le> kval_m st" by simp
    then have j64: "j < 64" using pool_ok_lt64 [OF ok] by simp
    \<comment> \<open>the block is cut in two\<close>
    have p1: "pinv c st fl R {(a, j), (?b, j)}"
      using pinv_split [OF p _ sj, of a] by (simp add: insert_commute)
    \<comment> \<open>the upper half gets its header\<close>
    let ?x = "Addr (addr st ?b)"
    let ?h1 = "(heap st)(?x := (heap st ?x)\<lparr>tag := BLOCK_AVAIL\<rparr>)"
    let ?st1 = "st\<lparr>heap := ?h1\<rparr>"
    have w1: "wr c st ?x (\<lambda>h. h\<lparr>tag := BLOCK_AVAIL\<rparr>) = Some ?st1"
      and p2: "pinv c ?st1 fl R {(a, j), (?b, j)}"
      using pinv_wr_detached [OF p1, of "(?b, j)" "\<lambda>h. h\<lparr>tag := BLOCK_AVAIL\<rparr>"] by simp_all
    let ?h2 = "?h1(?x := (?h1 ?x)\<lparr>kval := j\<rparr>)"
    let ?st2 = "st\<lparr>heap := ?h2\<rparr>"
    have w2: "wr c ?st1 ?x (\<lambda>h. h\<lparr>kval := j\<rparr>) = Some ?st2"
      and p3: "pinv c ?st2 fl R {(a, j), (?b, j)}"
      using pinv_wr_detached [OF p2, of "(?b, j)" "\<lambda>h. h\<lparr>kval := j\<rparr>"] by simp_all
    have hb: "hdr_is ?st2 BLOCK_AVAIL (?b, j)" by simp
    \<comment> \<open>and goes on the list of order j\<close>
    let ?h3 = "push_h ?h2 (Sent j) ?x"
    let ?st3 = "st\<lparr>heap := ?h3\<rparr>"
    let ?fl3 = "fl(j := ?b # fl j)"
    have w3: "push_front c ?st2 j ?x = Some ?st3"
      and p4: "pinv c ?st3 ?fl3 R ({(a, j), (?b, j)} - {(?b, j)})"
      using pinv_push [OF p3 _ hb] by simp_all
    have "{(a, j), (?b, j)} - {(?b, j)} = {(a, j)}" by auto
    then have p5: "pinv c ?st3 ?fl3 R {(a, j)}" using p4 by simp
    define fl' where "fl' = split_lists ?fl3 a j k"
    from Suc.IH [OF p5 kj] obtain h' where
      r: "split_loop c ?st3 (addr ?st3 a) j k = Some (?st3\<lparr>heap := h'\<rparr>)"
      "pinv c (?st3\<lparr>heap := h'\<rparr>) fl' R {(a, k)}"
      "free_bytes c fl' + 2 ^ k = free_bytes c ?fl3 + 2 ^ j"
      unfolding fl'_def by blast
    have fe: "fl' = split_lists fl a (Suc j) k"
      unfolding fl'_def using kj by (intro ext) (auto simp: split_lists_def)
    have jM: "j < MAX_K c" using \<open>Suc j \<le> kval_m st\<close> ok by (simp add: pool_ok_def)
    have fb: "free_bytes c fl' + 2 ^ k = free_bytes c fl + 2 ^ Suc j"
      using r(3) by (simp add: free_bytes_cons [OF jM])
    have "split_loop c st (addr st a) (Suc j) k = split_loop c ?st3 (addr st a) j k"
      using False Suc.prems(2) w1 w2 w3
      by (subst split_loop.simps) (simp add: shl1_lt [OF j64] addr_plus_pow)
    then have "split_loop c st (addr st a) (Suc j) k = Some (st\<lparr>heap := h'\<rparr>)"
      using r(1) by simp
    moreover have "pinv c (st\<lparr>heap := h'\<rparr>) fl' R {(a, k)}" using r(2) by simp
    ultimately show ?thesis using fb unfolding fe by blast
  qed
qed

lemma malloc_too_big:
  assumes "sz \<noteq> 0" "kval_m st < btok c sz"
  shows "buddy_malloc c Pool st sz = Some (0, st\<lparr>errno := ENOMEM\<rparr>)"
  using assms by (simp add: buddy_malloc_def Let_def)

lemma malloc_exhausted:
  assumes p: "pool_inv c st fl R" and sz: "sz \<noteq> 0"
    and em: "\<forall>j. btok c sz \<le> j \<and> j \<le> kval_m st \<longrightarrow> fl j = []"
  shows "buddy_malloc c Pool st sz = Some (0, st\<lparr>errno := ENOMEM\<rparr>)"
proof (cases "kval_m st < btok c sz")
  case True
  with sz show ?thesis by (rule malloc_too_big)
next
  case False
  have p': "pinv c st fl R {}" using p by (simp add: pool_inv_def)
  from find_avail_spec [OF p', of "btok c sz"] obtain i where
    i: "find_avail c st (btok c sz) = Some i" "btok c sz \<le> i"
    "if i \<le> kval_m st then fl i \<noteq> [] else \<forall>j. btok c sz \<le> j \<and> j \<le> kval_m st \<longrightarrow> fl j = []"
    by blast
  have "\<not> i \<le> kval_m st" using i(2,3) em by (auto split: if_splits)
  then show ?thesis using False sz i(1) by (simp add: buddy_malloc_def Let_def)
qed

lemma malloc_ok_lists:
  assumes p: "pool_inv c st fl R" and sz: "sz \<noteq> 0"
    and ki: "btok c sz \<le> i" "i \<le> kval_m st" and ne: "fl i \<noteq> []"
    and em: "\<forall>j. btok c sz \<le> j \<and> j < i \<longrightarrow> fl j = []"
  shows "\<exists>h'.
           buddy_malloc c Pool st sz = Some (addr st (hd (fl i)) + of_nat (hdr c), st\<lparr>heap := h'\<rparr>) \<and>
           pool_inv c (st\<lparr>heap := h'\<rparr>) (malloc_lists fl i (btok c sz)) (insert (hd (fl i), btok c sz) R) \<and>
           (hd (fl i), btok c sz) \<notin> R \<and>
           free_bytes c (malloc_lists fl i (btok c sz)) + 2 ^ btok c sz = free_bytes c fl"
proof -
  define k where "k = btok c sz"
  define a where "a = hd (fl i)"
  have p': "pinv c st fl R {}" using p by (simp add: pool_inv_def)
  have ok: "pool_ok c st" using p' by (rule pinv_pool_ok)
  then have cok: "cfg_ok c" by (simp add: pool_ok_def)
  have sk: "SMALLEST_K c \<le> k" using btok_range [OF cok sz] by (simp add: k_def)
  have iM: "i < MAX_K c" using ki(2) ok by (simp add: pool_ok_def)
  have ain: "a \<in> set (fl i)" using ne by (simp add: a_def)
  \<comment> \<open>the search stops at i\<close>
  from find_avail_spec [OF p', of k] obtain i' where
    i': "find_avail c st k = Some i'" "k \<le> i'" "\<forall>j. k \<le> j \<and> j < i' \<longrightarrow> fl j = []"
    "if i' \<le> kval_m st then fl i' \<noteq> [] else \<forall>j. k \<le> j \<and> j \<le> kval_m st \<longrightarrow> fl j = []"
    by blast
  have "\<not> i < i'" using i'(3) ki(1) ne by (auto simp: k_def)
  moreover have "\<not> i' < i"
  proof
    assume "i' < i"
    then have "fl i' = []" "i' \<le> kval_m st" using em i'(2) ki(2) by (auto simp: k_def)
    then show False using i'(4) by simp
  qed
  ultimately have fi: "find_avail c st k = Some i" using i'(1) by simp
  \<comment> \<open>the head of list i is taken off\<close>
  have r: "rd c st (Sent i) = Some (heap st (Sent i))" using valid_sent [OF iM] by (rule rd_valid)
  have nx: "next (heap st (Sent i)) = Addr (addr st a)"
    using pinv_head [OF p' iM] ne by (cases "fl i") (simp_all add: a_def)
  let ?st1 = "st\<lparr>heap := unlink_h (heap st) (Addr (addr st a))\<rparr>"
  let ?fl1 = "fl(i := remove1 a (fl i))"
  have u: "unlink c st (Addr (addr st a)) = Some ?st1" and p1: "pinv c ?st1 ?fl1 R {(a, i)}"
    using pinv_unlink [OF p' ain] by simp_all
  have fb1: "free_bytes c ?fl1 + 2 ^ i = free_bytes c fl" using iM ain by (rule free_bytes_remove1)
  \<comment> \<open>and split down to order k\<close>
  define fl2 where "fl2 = split_lists ?fl1 a i k"
  have rt: "remove1 a (fl i) = tl (fl i)" using ne by (cases "fl i") (simp_all add: a_def)
  have fl2: "fl2 = malloc_lists fl i k"
    unfolding fl2_def malloc_lists_def rt by (simp add: a_def)
  from split_loop_spec [OF p1 _ sk] ki(1) obtain h2 where
    sp: "split_loop c ?st1 (addr ?st1 a) i k = Some (?st1\<lparr>heap := h2\<rparr>)"
    and p2: "pinv c (?st1\<lparr>heap := h2\<rparr>) fl2 R {(a, k)}"
    and fb2: "free_bytes c fl2 + 2 ^ k = free_bytes c ?fl1 + 2 ^ i"
    unfolding fl2_def by (auto simp: k_def)
  let ?st2 = "st\<lparr>heap := h2\<rparr>"
  have sp': "split_loop c ?st1 (addr st a) i k = Some ?st2" using sp by simp
  have p2': "pinv c ?st2 fl2 R {(a, k)}" using p2 by simp
  \<comment> \<open>the block is marked\<close>
  let ?x = "Addr (addr st a)"
  let ?h3 = "h2(?x := (h2 ?x)\<lparr>tag := BLOCK_RESERVED\<rparr>)"
  let ?st3 = "st\<lparr>heap := ?h3\<rparr>"
  have w3: "wr c ?st2 ?x (\<lambda>h. h\<lparr>tag := BLOCK_RESERVED\<rparr>) = Some ?st3"
    and p3: "pinv c ?st3 fl2 R {(a, k)}"
    using pinv_wr_detached [OF p2', of "(a, k)" "\<lambda>h. h\<lparr>tag := BLOCK_RESERVED\<rparr>"] by simp_all
  let ?h4 = "?h3(?x := (?h3 ?x)\<lparr>kval := k\<rparr>)"
  let ?st4 = "st\<lparr>heap := ?h4\<rparr>"
  have w4: "wr c ?st3 ?x (\<lambda>h. h\<lparr>kval := k\<rparr>) = Some ?st4"
    and p4: "pinv c ?st4 fl2 R {(a, k)}"
    using pinv_wr_detached [OF p3, of "(a, k)" "\<lambda>h. h\<lparr>kval := k\<rparr>"] by simp_all
  have "hdr_is ?st4 BLOCK_RESERVED (a, k)" by simp
  from pinv_reserve [OF p4 _ this] have p5: "pool_inv c ?st4 fl2 (insert (a, k) R)"
    by (simp add: pool_inv_def)
  have nR: "(a, k) \<notin> R" using p2' by (auto simp: pinv_def)
  have fb: "free_bytes c fl2 + 2 ^ k = free_bytes c fl" using fb1 fb2 by simp
  have "buddy_malloc c Pool st sz = Some (addr st a + of_nat (hdr c), ?st4)"
    using sz ki fi r nx u sp' w3 w4
    by (simp add: buddy_malloc_def Let_def k_def [symmetric])
  then show ?thesis using p5 nR fb unfolding fl2 unfolding k_def a_def by blast
qed

lemma malloc_ok:
  assumes p: "pool_inv c st fl R" and sz: "sz \<noteq> 0"
    and ki: "btok c sz \<le> i" "i \<le> kval_m st" and ne: "fl i \<noteq> []"
    and em: "\<forall>j. btok c sz \<le> j \<and> j < i \<longrightarrow> fl j = []"
  shows "\<exists>h' fl'.
           buddy_malloc c Pool st sz = Some (addr st (hd (fl i)) + of_nat (hdr c), st\<lparr>heap := h'\<rparr>) \<and>
           pool_inv c (st\<lparr>heap := h'\<rparr>) fl' (insert (hd (fl i), btok c sz) R) \<and>
           (hd (fl i), btok c sz) \<notin> R \<and>
           free_bytes c fl' + 2 ^ btok c sz = free_bytes c fl"
  using malloc_ok_lists [OF assms] by blast

section \<open>Release keeps the invariant\<close>

lemma xor_pow2_neq: "(a::nat) XOR 2 ^ k \<noteq> a"
proof
  assume "a XOR 2 ^ k = a"
  then have "bit (a XOR 2 ^ k) k = bit a k" by simp
  then show False by (simp add: bit_xor_iff bit_exp_iff)
qed

text \<open>The block met at the buddy address, when its header says free and order \<open>k\<close>.\<close>

lemma buddy_is_free:
  assumes p: "pinv c st fl R {(a, k)}" and k: "k < kval_m st"
  shows "valid c st (Addr (addr st (a XOR 2 ^ k)))"
    and "a XOR 2 ^ k < 2 ^ kval_m st"
    and "tag (heap st (Addr (addr st (a XOR 2 ^ k)))) = BLOCK_AVAIL \<Longrightarrow>
         kval (heap st (Addr (addr st (a XOR 2 ^ k)))) = k \<Longrightarrow> a XOR 2 ^ k \<in> set (fl k)"
proof -
  let ?b = "a XOR 2 ^ k"
  let ?B = "free_blks fl \<union> R \<union> {(a, k)}"
  have "(a, k) \<in> ?B" by simp
  from tiling_buddy [OF pinv_tiling [OF p] this k] obtain j where j: "j \<le> k" "(?b, j) \<in> ?B"
    by blast
  show "valid c st (Addr (addr st ?b))" using pinv_valid [OF p j(2)] by simp
  show "?b < 2 ^ kval_m st" using pinv_lt(1) [OF p j(2)] by simp
  assume t: "tag (heap st (Addr (addr st ?b))) = BLOCK_AVAIL"
    and kv: "kval (heap st (Addr (addr st ?b))) = k"
  have "(?b, j) \<notin> R"
  proof
    assume "(?b, j) \<in> R"
    then have "hdr_is st BLOCK_RESERVED (?b, j)" using p by (simp add: pinv_def)
    then show False using t by (simp add: hdr_is_def)
  qed
  moreover have "?b \<noteq> a" by (rule xor_pow2_neq)
  then have "(?b, j) \<notin> {(a, k)}" by simp
  ultimately have f: "(?b, j) \<in> free_blks fl" using j(2) by blast
  then have "hdr_is st BLOCK_AVAIL (?b, j)" using p by (simp add: pinv_def)
  then have "j = k" using kv by (simp add: hdr_is_def)
  then show "?b \<in> set (fl k)" using f by (simp add: free_blks_iff)
qed

lemma coalesce_spec:
  assumes p: "pinv c st fl R {(a, k)}" and h: "hdr_is st BLOCK_AVAIL (a, k)"
  shows "\<exists>h' fl' a' k'.
           spec_coalesce (kval_m st) fl a k = (fl', a', k') \<and>
           coalesce c st (addr st a) k = Some (st\<lparr>heap := h'\<rparr>, addr st a', k') \<and>
           pinv c (st\<lparr>heap := h'\<rparr>) fl' R {(a', k')} \<and>
           hdr_is (st\<lparr>heap := h'\<rparr>) BLOCK_AVAIL (a', k') \<and> k \<le> k' \<and>
           free_bytes c fl' + 2 ^ k' = free_bytes c fl + 2 ^ k \<and>
           (\<forall>w\<in>set (coalesce_trace c st (addr st a) k). \<exists>b<2 ^ kval_m st. w = addr st b)"
  using p h
proof (induction "kval_m st - k" arbitrary: st fl a k)
  case 0
  then have nk: "\<not> k < kval_m st" by simp
  then have "coalesce c st (addr st a) k = Some (st, addr st a, k)"
    by (subst coalesce.simps) simp
  moreover have "st = st\<lparr>heap := heap st\<rparr>" by simp
  moreover have "spec_coalesce (kval_m st) fl a k = (fl, a, k)"
    using nk by (subst spec_coalesce.simps) simp
  moreover have "coalesce_trace c st (addr st a) k = []"
    using nk by (subst coalesce_trace.simps) simp
  ultimately show ?case using 0(2,3) by (metis order_refl empty_iff empty_set)
next
  case (Suc n)
  note p = \<open>pinv c st fl R {(a, k)}\<close> and h = \<open>hdr_is st BLOCK_AVAIL (a, k)\<close>
  have k: "k < kval_m st" using Suc(2) by simp
  have ok: "pool_ok c st" using p by (rule pinv_pool_ok)
  have k64: "k < 64" using k pool_ok_lt64 [OF ok] by simp
  have kM: "k < MAX_K c" using k ok by (simp add: pool_ok_def)
  let ?b = "a XOR 2 ^ k"
  let ?bh = "heap st (Addr (addr st ?b))"
  have ain: "(a, k) \<in> free_blks fl \<union> R \<union> {(a, k)}" by simp
  have va: "valid c st (Addr (addr st a))" using pinv_valid [OF p ain] by simp
  have bc: "buddy_calc c st (addr st a) = Some (addr st ?b)"
    using va _ k64 by (rule buddy_calc_valid) (use h in \<open>simp add: hdr_is_def\<close>)
  have vb: "valid c st (Addr (addr st ?b))" using buddy_is_free(1) [OF p k] .
  have bl: "?b < 2 ^ kval_m st" using buddy_is_free(2) [OF p k] .
  have rb: "rd c st (Addr (addr st ?b)) = Some ?bh" using vb by (rule rd_valid)
  show ?case
  proof (cases "tag ?bh \<noteq> BLOCK_AVAIL \<or> kval ?bh \<noteq> k")
    case True
    have "coalesce c st (addr st a) k = Some (st, addr st a, k)"
      using k bc rb True by (subst coalesce.simps) auto
    moreover have "st = st\<lparr>heap := heap st\<rparr>" by simp
    moreover have "?b \<notin> set (fl k)"
    proof
      assume "?b \<in> set (fl k)"
      from pinv_free_not_reserved(3) [OF p this] True show False by (simp add: hdr_is_def)
    qed
    then have "spec_coalesce (kval_m st) fl a k = (fl, a, k)"
      by (subst spec_coalesce.simps) simp
    moreover have "coalesce_trace c st (addr st a) k = [addr st ?b]"
      using k bc rb True by (subst coalesce_trace.simps) auto
    then have "\<forall>w\<in>set (coalesce_trace c st (addr st a) k). \<exists>b<2 ^ kval_m st. w = addr st b"
      using bl by auto
    ultimately show ?thesis using p h by (metis order_refl)
  next
    case False
    then have bin: "?b \<in> set (fl k)" using buddy_is_free(3) [OF p k] by simp
    \<comment> \<open>the buddy leaves its list\<close>
    let ?st1 = "st\<lparr>heap := unlink_h (heap st) (Addr (addr st ?b))\<rparr>"
    let ?fl1 = "fl(k := remove1 ?b (fl k))"
    have u: "unlink c st (Addr (addr st ?b)) = Some ?st1"
      and p1: "pinv c ?st1 ?fl1 R {(?b, k), (a, k)}"
      using pinv_unlink [OF p bin] by simp_all
    have fb1: "free_bytes c ?fl1 + 2 ^ k = free_bytes c fl" using kM bin by (rule free_bytes_remove1)
    \<comment> \<open>the lower of the two is the block of order k + 1\<close>
    define l where "l = min a ?b"
    have w: "2 ^ k dvd a" "a + 2 ^ k \<le> 2 ^ kval_m st"
      using pinv_wf [OF p ain] by (simp_all add: wf_blk_def)
    from w k obtain l' where l': "2 ^ Suc k dvd l'"
      "(a = l' \<and> ?b = l' + 2 ^ k) \<or> (a = l' + 2 ^ k \<and> ?b = l')"
      by (rule buddy_parent)
    have ll: "l = l'" using l'(2) by (auto simp: l_def)
    have al: "2 ^ Suc k dvd l" using l'(1) ll by simp
    have pair: "{(?b, k), (a, k)} = {(l, k), (l + 2 ^ k, k)}" using l'(2) ll by auto
    have alt: "a < 2 ^ kval_m st" using pinv_lt(1) [OF p ain] by simp
    have cmp: "(addr st a > addr st ?b) = (a > ?b)"
      using addr_less [OF ok bl alt] by simp
    have blk: "(if addr st a > addr st ?b then addr st ?b else addr st a) = addr st l"
      by (auto simp: cmp l_def min_def)
    have p1': "pinv c ?st1 ?fl1 R {(l, k), (l + 2 ^ k, k)}" using p1 by (simp only: pair)
    have "pinv c ?st1 ?fl1 R (insert (l, Suc k) ({(l, k), (l + 2 ^ k, k)} - {(l, k), (l + 2 ^ k, k)}))"
      using p1' _ _ al by (rule pinv_merge) (use k in simp_all)
    then have p2: "pinv c ?st1 ?fl1 R {(l, Suc k)}" by simp
    let ?x = "Addr (addr st l)"
    let ?h1 = "unlink_h (heap st) (Addr (addr st ?b))"
    let ?h2 = "?h1(?x := (?h1 ?x)\<lparr>kval := Suc k\<rparr>)"
    let ?st2 = "st\<lparr>heap := ?h2\<rparr>"
    have w2: "wr c ?st1 ?x (\<lambda>h. h\<lparr>kval := Suc k\<rparr>) = Some ?st2"
      and p3: "pinv c ?st2 ?fl1 R {(l, Suc k)}"
      using pinv_wr_detached [OF p2, of "(l, Suc k)" "\<lambda>h. h\<lparr>kval := Suc k\<rparr>"] by simp_all
    have "tag (heap st ?x) = BLOCK_AVAIL"
      using h False by (auto simp: l_def min_def hdr_is_def)
    then have h2: "hdr_is ?st2 BLOCK_AVAIL (l, Suc k)" by (simp add: unlink_h_tag)
    have "n = kval_m ?st2 - Suc k" using Suc(2) by simp
    from Suc(1) [OF this p3 h2] obtain h' fl' a' k' where
      r: "spec_coalesce (kval_m ?st2) ?fl1 l (Suc k) = (fl', a', k')"
      "coalesce c ?st2 (addr ?st2 l) (Suc k) = Some (?st2\<lparr>heap := h'\<rparr>, addr ?st2 a', k')"
      "pinv c (?st2\<lparr>heap := h'\<rparr>) fl' R {(a', k')}"
      "hdr_is (?st2\<lparr>heap := h'\<rparr>) BLOCK_AVAIL (a', k')" "Suc k \<le> k'"
      "free_bytes c fl' + 2 ^ k' = free_bytes c ?fl1 + 2 ^ Suc k"
      "\<forall>w\<in>set (coalesce_trace c ?st2 (addr ?st2 l) (Suc k)). \<exists>b<2 ^ kval_m ?st2. w = addr ?st2 b"
      by blast
    have "coalesce c st (addr st a) k = coalesce c ?st2 (addr st l) (Suc k)"
      using k bc rb False u w2 by (subst coalesce.simps) (simp add: blk Let_def)
    then have "coalesce c st (addr st a) k = Some (st\<lparr>heap := h'\<rparr>, addr st a', k')"
      using r(2) by simp
    moreover have "spec_coalesce (kval_m st) fl a k = (fl', a', k')"
      using k bin r(1) by (subst spec_coalesce.simps) (simp add: l_def)
    moreover have "pinv c (st\<lparr>heap := h'\<rparr>) fl' R {(a', k')}"
      "hdr_is (st\<lparr>heap := h'\<rparr>) BLOCK_AVAIL (a', k')"
      using r(3,4) by simp_all
    moreover have "k \<le> k'" using r(5) by simp
    moreover have "free_bytes c fl' + 2 ^ k' = free_bytes c fl + 2 ^ k"
      using r(6) fb1 by simp
    moreover have "coalesce_trace c st (addr st a) k
        = addr st ?b # coalesce_trace c ?st2 (addr st l) (Suc k)"
      using k bc rb False u w2 by (subst coalesce_trace.simps) (simp add: blk Let_def)
    then have "\<forall>w\<in>set (coalesce_trace c st (addr st a) k). \<exists>b<2 ^ kval_m st. w = addr st b"
      using r(7) bl by auto
    ultimately show ?thesis by blast
  qed
qed

lemma payload_ptr:
  assumes p: "pinv c st fl R D" and b: "(a, k) \<in> free_blks fl \<union> R \<union> D"
  shows "addr st a + of_nat (hdr c) \<noteq> 0" "addr st a + of_nat (hdr c) - of_nat (hdr c) = addr st a"
proof -
  have ok: "pool_ok c st" using p by (rule pinv_pool_ok)
  then have c: "cfg_ok c" by (simp add: pool_ok_def)
  have w: "wf_blk c (kval_m st) (a, k)" using pinv_wf [OF p b] .
  have "a + hdr c < a + 2 ^ k" "a + 2 ^ k \<le> 2 ^ kval_m st"
    using wf_blk_hdr(1) [OF c w] w by (simp_all add: wf_blk_def)
  then have "a + hdr c < 2 ^ kval_m st" by simp
  from addr_nonzero [OF ok this] show "addr st a + of_nat (hdr c) \<noteq> 0"
    by (simp add: addr_plus)
  show "addr st a + of_nat (hdr c) - of_nat (hdr c) = addr st a" by simp
qed

lemma free_ok:
  assumes p: "pool_inv c st fl R" and b: "(a, k) \<in> R"
  shows "\<exists>h' k'.
           buddy_free c Pool st (addr st a + of_nat (hdr c)) = Some (st\<lparr>heap := h'\<rparr>) \<and>
           pool_inv c (st\<lparr>heap := h'\<rparr>) (spec_free (kval_m st) fl a k) (R - {(a, k)}) \<and>
           free_bytes c (spec_free (kval_m st) fl a k) = free_bytes c fl + 2 ^ k \<and>
           k \<le> k' \<and> k' \<le> kval_m st \<and> spec_free (kval_m st) fl a k k' \<noteq> [] \<and>
           (\<forall>w\<in>set (free_trace c Pool st (addr st a + of_nat (hdr c))). \<exists>b<2 ^ kval_m st. w = addr st b)"
proof -
  have p': "pinv c st fl R {}" using p by (simp add: pool_inv_def)
  have bin: "(a, k) \<in> free_blks fl \<union> R \<union> {}" using b by simp
  note ptr = payload_ptr [OF p' bin]
  let ?x = "Addr (addr st a)"
  have va: "valid c st ?x" using pinv_valid [OF p' bin] by simp
  have r: "rd c st ?x = Some (heap st ?x)" using va by (rule rd_valid)
  have hk: "kval (heap st ?x) = k" using p' b by (auto simp: pinv_def hdr_is_def)
  \<comment> \<open>the block is marked free; it is on no list yet\<close>
  have p0: "pinv c st fl (R - {(a, k)}) {(a, k)}" using pinv_release [OF p' b] by simp
  let ?h1 = "(heap st)(?x := (heap st ?x)\<lparr>tag := BLOCK_AVAIL\<rparr>)"
  let ?st1 = "st\<lparr>heap := ?h1\<rparr>"
  have w1: "wr c st ?x (\<lambda>h. h\<lparr>tag := BLOCK_AVAIL\<rparr>) = Some ?st1"
    and p1: "pinv c ?st1 fl (R - {(a, k)}) {(a, k)}"
    using pinv_wr_detached [OF p0, of "(a, k)" "\<lambda>h. h\<lparr>tag := BLOCK_AVAIL\<rparr>"] by simp_all
  have h1: "hdr_is ?st1 BLOCK_AVAIL (a, k)" using hk by simp
  \<comment> \<open>it is merged with its free buddies\<close>
  from coalesce_spec [OF p1 h1] obtain h2 fl2 a' k' where
    sc: "spec_coalesce (kval_m ?st1) fl a k = (fl2, a', k')"
    and co: "coalesce c ?st1 (addr ?st1 a) k = Some (?st1\<lparr>heap := h2\<rparr>, addr ?st1 a', k')"
    and p2: "pinv c (?st1\<lparr>heap := h2\<rparr>) fl2 (R - {(a, k)}) {(a', k')}"
    and h2: "hdr_is (?st1\<lparr>heap := h2\<rparr>) BLOCK_AVAIL (a', k')"
    and kk: "k \<le> k'"
    and fb2: "free_bytes c fl2 + 2 ^ k' = free_bytes c fl + 2 ^ k"
    and tr: "\<forall>w\<in>set (coalesce_trace c ?st1 (addr ?st1 a) k). \<exists>b<2 ^ kval_m ?st1. w = addr ?st1 b"
    by blast
  let ?st2 = "st\<lparr>heap := h2\<rparr>"
  have co': "coalesce c ?st1 (addr st a) k = Some (?st2, addr st a', k')" using co by simp
  have p2': "pinv c ?st2 fl2 (R - {(a, k)}) {(a', k')}" using p2 by simp
  have h2': "hdr_is ?st2 BLOCK_AVAIL (a', k')" using h2 by simp
  \<comment> \<open>and put at the head of the list of its order\<close>
  let ?st3 = "st\<lparr>heap := push_h h2 (Sent k') (Addr (addr st a'))\<rparr>"
  let ?fl3 = "fl2(k' := a' # fl2 k')"
  have sf: "spec_free (kval_m st) fl a k = ?fl3" using sc by (simp add: spec_free_def)
  have pf: "push_front c ?st2 k' (Addr (addr st a')) = Some ?st3"
    and p3: "pinv c ?st3 ?fl3 (R - {(a, k)}) ({(a', k')} - {(a', k')})"
    using pinv_push [OF p2' _ h2'] by simp_all
  have p3': "pool_inv c ?st3 ?fl3 (R - {(a, k)})" using p3 by (simp add: pool_inv_def)
  have "(a', k') \<in> free_blks fl2 \<union> (R - {(a, k)}) \<union> {(a', k')}" by simp
  from pinv_lt(2,3) [OF p2' this] have k'M: "k' < MAX_K c" "k' \<le> kval_m st" by simp_all
  have fb: "free_bytes c ?fl3 = free_bytes c fl + 2 ^ k"
    using fb2 by (simp add: free_bytes_cons [OF k'M(1)])
  have "buddy_free c Pool st (addr st a + of_nat (hdr c)) = Some ?st3"
    using ptr r hk w1 co' pf by (simp add: buddy_free_def Let_def)
  moreover have "?fl3 k' \<noteq> []" by simp
  moreover have "free_trace c Pool st (addr st a + of_nat (hdr c)) = coalesce_trace c ?st1 (addr st a) k"
    using ptr r hk w1 by (simp add: free_trace_def)
  then have "\<forall>w\<in>set (free_trace c Pool st (addr st a + of_nat (hdr c))). \<exists>b<2 ^ kval_m st. w = addr st b"
    using tr by simp
  ultimately show ?thesis using p3' fb kk k'M(2) unfolding sf by blast
qed

section \<open>Set-up establishes the invariant\<close>

lemma init_order_range:
  assumes "cfg_ok c"
  shows "SMALLEST_K c \<le> init_order c sz" "init_order c sz < MAX_K c" "init_order c sz < 64"
proof -
  show a: "SMALLEST_K c \<le> init_order c sz" using assms
    by (auto simp: init_order_def cfg_ok_def Let_def)
  show b: "init_order c sz < MAX_K c" using assms
    by (auto simp: init_order_def cfg_ok_def Let_def)
  then show "init_order c sz < 64" using assms by (simp add: cfg_ok_def)
qed

lemma init_avail_spec:
  "init_avail c st i = st\<lparr>heap := sent_heap c (heap st) i\<rparr>"
proof (induction "MAX_K c - i" arbitrary: st i)
  case 0
  then have "\<not> i < MAX_K c" by simp
  then have "init_avail c st i = st" by (subst init_avail.simps) simp
  moreover have "sent_heap c (heap st) i = heap st"
    using \<open>\<not> i < MAX_K c\<close> by (intro ext) (auto simp: sent_heap_def split: ptr.splits)
  ultimately show ?case by simp
next
  case (Suc n)
  then have i: "i < MAX_K c" by simp
  let ?h = "(heap st)(Sent i := \<lparr>tag = BLOCK_UNUSED, kval = i, next = Sent i, prev = Sent i\<rparr>)"
  have "n = MAX_K c - (i + 1)" using Suc(2) by simp
  from Suc(1) [OF this, of "st\<lparr>heap := ?h\<rparr>"]
  have "init_avail c (st\<lparr>heap := ?h\<rparr>) (i + 1) = st\<lparr>heap := sent_heap c ?h (i + 1)\<rparr>"
    by simp
  moreover have "init_avail c st i = init_avail c (st\<lparr>heap := ?h\<rparr>) (i + 1)"
    using i by (subst init_avail.simps) simp
  moreover have "sent_heap c ?h (i + 1) = sent_heap c (heap st) i"
    using i by (intro ext) (auto simp: sent_heap_def split: ptr.splits)
  ultimately show ?case by simp
qed

lemma buddy_init_mapped:
  assumes c: "cfg_ok c" and b: "b \<noteq> 0"
  shows "buddy_init c Pool st sz (Mapped b) = Some (init_state c st sz b)"
proof -
  define km where "km = init_order c sz"
  note r = init_order_range [OF c, of sz, folded km_def]
  have hk: "hdr c < 2 ^ km"
  proof -
    have "hdr c < 2 ^ SMALLEST_K c" using c by (simp add: cfg_ok_def)
    also have "(2::nat) ^ SMALLEST_K c \<le> 2 ^ km" using r(1) by (simp add: power_increasing)
    finally show ?thesis .
  qed
  let ?st1 = "st\<lparr>kval_m := km, numbytes := 2 ^ km, oscalls := oscalls st @ [Mmap (2 ^ km)], base := b\<rparr>"
  have v: "valid c (?st1\<lparr>heap := h\<rparr>) (Addr b)" "valid c (?st1\<lparr>heap := h\<rparr>) (Sent km)" for h
    using b hk r by (simp_all add: valid_def in_arena_def unat_pow2)
  have km': "(if sz = 0 then st\<lparr>kval_m := DEFAULT_K c\<rparr>
              else let k = btok c sz; k = if k < MIN_K c then MIN_K c else k;
                       k = if MAX_K c \<le> k then MAX_K c - 1 else k
                   in st\<lparr>kval_m := k\<rparr>) = st\<lparr>kval_m := km\<rparr>"
    by (simp add: km_def init_order_def Let_def)
  have e: "(sent_heap c (heap st) 0)
          (Addr b := heap st (Addr b)\<lparr>tag := BLOCK_AVAIL, kval := km, next := Sent km, prev := Sent km\<rparr>,
           Sent km := \<lparr>tag = BLOCK_UNUSED, kval = km, next = Addr b, prev = Addr b\<rparr>)
        = init_heap c (heap st) km b"
    using r(2) by (intro ext) (auto simp: init_heap_def sent_heap_def split: ptr.splits)
  have s0: "sent_heap c h 0 (Addr b) = h (Addr b)"
    "sent_heap c h 0 (Sent km) = \<lparr>tag = BLOCK_UNUSED, kval = km, next = Sent km, prev = Sent km\<rparr>" for h
    using r(2) by (simp_all add: sent_heap_def)
  have "buddy_init c Pool st sz (Mapped b) =
          Some (?st1\<lparr>heap := init_heap c (heap st) km b\<rparr>)"
    unfolding buddy_init_def km'
    using r(2,3) v
    by (simp add: shl1_lt Let_def init_avail_spec wr_def s0 e)
  then show ?thesis by (simp add: km_def init_state_def)
qed

lemma init_state_fields:
  "kval_m (init_state c st sz b) = init_order c sz"
  "numbytes (init_state c st sz b) = 2 ^ init_order c sz"
  "base (init_state c st sz b) = b"
  "heap (init_state c st sz b) = init_heap c (heap st) (init_order c sz) b"
  "bytes (init_state c st sz b) = bytes st"
  "errno (init_state c st sz b) = errno st"
  by (simp_all add: init_state_def)

lemma tiling_fresh:
  assumes "SMALLEST_K c \<le> km"
  shows "tiling c km {(0, km)}"
  using assms by (simp add: tiling_def wf_blk_def covers_def)

lemma free_blks_fresh: "free_blks (fresh km) = {(0, km)}"
  by (auto simp: free_blks_def fresh_def split: if_splits)

lemma init_pool_inv:
  assumes c: "cfg_ok c" and b: "b \<noteq> 0" and nw: "unat b + 2 ^ init_order c sz \<le> 2 ^ 64"
  shows "pool_inv c (init_state c st sz b) (fresh (init_order c sz)) {}"
proof -
  define km where "km = init_order c sz"
  define st' where "st' = init_state c st sz b"
  note r = init_order_range [OF c, of sz, folded km_def]
  note f = init_state_fields [of c st sz b, folded km_def st'_def]
  have a0: "addr st' 0 = b" by (simp add: addr_def f)
  have ok: "pool_ok c st'"
    using c b nw r by (simp add: pool_ok_def f km_def [symmetric])
  have dl: "dll st' i (fresh km i)" if "i < MAX_K c" for i
    using that by (simp add: dll_def dllp_def nodes_def fresh_def f init_heap_def a0)
  have "pinv c st' (fresh km) {} {}"
    unfolding pinv_def
  proof (intro conjI)
    show "pool_ok c st'" by (rule ok)
    show "\<forall>i<MAX_K c. dll st' i (fresh km i)" using dl by blast
    show "\<forall>i. distinct (fresh km i)" by (simp add: fresh_def)
    show "tiling c (kval_m st') (free_blks (fresh km) \<union> {} \<union> {})"
      using tiling_fresh [OF r(1)] by (simp add: free_blks_fresh f)
    show "\<forall>b\<in>free_blks (fresh km). hdr_is st' BLOCK_AVAIL b"
      by (simp add: free_blks_fresh hdr_is_def a0 f init_heap_def)
  qed simp_all
  then show ?thesis by (simp add: pool_inv_def km_def st'_def)
qed

section \<open>The concrete machine\<close>

lemma btok_cfg0_values:
  "btok cfg0 1 = 6" "btok cfg0 100 = 7" "btok cfg0 1048576 = 21" "btok cfg0 (- 1) = 6"
  "btok cfg0 50 = 7" "btok cfg0 200 = 8"
  by code_simp+

lemma init_order_cfg0: "init_order cfg0 1 = 20"
  by (simp add: init_order_def btok_cfg0_values cfg0_fields)

lemma m1_fields:
  "kval_m m1 = 20" "numbytes m1 = 2 ^ 20" "base m1 = 0x10000000" "errno m1 = 0"
  by (simp_all add: m1_def init_state_fields init_order_cfg0 m0_def)

lemma m1_init: "buddy_init cfg0 Pool m0 1 (Mapped 0x10000000) = Some m1"
  unfolding m1_def by (rule buddy_init_mapped [OF cfg0_ok]) simp

lemma m1_inv: "pool_inv cfg0 m1 (fresh 20) {}"
  using init_pool_inv [OF cfg0_ok, of "0x10000000" 1 m0]
  by (simp add: init_order_cfg0 m1_def)

lemma addr_m1: "addr m1 x = 0x10000000 + of_nat x"
  by (simp add: addr_def m1_fields)

lemma m2_malloc:
  "buddy_malloc cfg0 Pool m1 100 = Some (0x10000018, m2)"
  "pool_inv cfg0 m2 (malloc_lists (fresh 20) 20 7) {(0, 7)}"
  "kval_m m2 = 20" "base m2 = 0x10000000" "numbytes m2 = 2 ^ 20"
proof -
  have "\<exists>h'. buddy_malloc cfg0 Pool m1 100 = Some (addr m1 (hd (fresh 20 20)) + of_nat (hdr cfg0), m1\<lparr>heap := h'\<rparr>) \<and>
           pool_inv cfg0 (m1\<lparr>heap := h'\<rparr>) (malloc_lists (fresh 20) 20 (btok cfg0 100))
             (insert (hd (fresh 20 20), btok cfg0 100) {}) \<and>
           (hd (fresh 20 20), btok cfg0 100) \<notin> {} \<and>
           free_bytes cfg0 (malloc_lists (fresh 20) 20 (btok cfg0 100)) + 2 ^ btok cfg0 100
             = free_bytes cfg0 (fresh 20)"
    by (rule malloc_ok_lists [OF m1_inv]) (simp_all add: btok_cfg0_values m1_fields fresh_def)
  then obtain h' where
    m: "buddy_malloc cfg0 Pool m1 100 = Some (0x10000018, m1\<lparr>heap := h'\<rparr>)"
    and p: "pool_inv cfg0 (m1\<lparr>heap := h'\<rparr>) (malloc_lists (fresh 20) 20 7) {(0, 7)}"
    by (auto simp: btok_cfg0_values fresh_def addr_m1 cfg0_fields)
  have e: "m2 = m1\<lparr>heap := h'\<rparr>" by (simp add: m2_def m)
  show "buddy_malloc cfg0 Pool m1 100 = Some (0x10000018, m2)" using m e by simp
  show "pool_inv cfg0 m2 (malloc_lists (fresh 20) 20 7) {(0, 7)}" using p e by simp
  show "kval_m m2 = 20" "base m2 = 0x10000000" "numbytes m2 = 2 ^ 20"
    by (simp_all add: e m1_fields)
qed

lemma addr_m2: "addr m2 x = 0x10000000 + of_nat x"
  by (simp add: addr_def m2_malloc)

lemma m2_lists:
  "malloc_lists (fresh 20) 20 7 j = (if 7 \<le> j \<and> j < 20 then [2 ^ j] else [])"
  by (simp add: malloc_lists_def split_lists_def fresh_def)

section \<open>Auxiliary facts for the claims\<close>

lemma least_free_list:
  fixes k km :: nat
  assumes "\<exists>i. k \<le> i \<and> i \<le> km \<and> fl i \<noteq> []"
  obtains i where "k \<le> i" "i \<le> km" "fl i \<noteq> []" "\<forall>j. k \<le> j \<and> j < i \<longrightarrow> fl j = []"
proof -
  let ?P = "\<lambda>i. k \<le> i \<and> i \<le> km \<and> fl i \<noteq> []"
  define i where "i = (LEAST i. ?P i)"
  obtain i0 where "?P i0" using assms by blast
  then have P: "?P i" unfolding i_def by (rule LeastI [where P = ?P])
  have "\<forall>j. k \<le> j \<and> j < i \<longrightarrow> fl j = []"
  proof (intro allI impI)
    fix j assume j: "k \<le> j \<and> j < i"
    show "fl j = []"
    proof (rule ccontr)
      assume "fl j \<noteq> []"
      then have "?P j" using j P by simp
      then have "i \<le> j" unfolding i_def by (rule Least_le [where P = ?P])
      then show False using j by simp
    qed
  qed
  then show ?thesis using P that by blast
qed

lemma pool_inv_block:
  assumes p: "pool_inv c st fl R" and b: "(a, k) \<in> R"
  shows "2 ^ k dvd a" "a + 2 ^ k \<le> 2 ^ kval_m st" "hdr_is st BLOCK_RESERVED (a, k)"
    "\<forall>b\<in>R - {(a, k)}. disj (a, k) b" "addr st a + of_nat (hdr c) \<noteq> 0"
proof -
  have p': "pinv c st fl R {}" using p by (simp add: pool_inv_def)
  have bin: "(a, k) \<in> free_blks fl \<union> R \<union> {}" using b by simp
  show "2 ^ k dvd a" "a + 2 ^ k \<le> 2 ^ kval_m st"
    using pinv_wf [OF p' bin] by (simp_all add: wf_blk_def)
  show "hdr_is st BLOCK_RESERVED (a, k)" using p' b by (simp add: pinv_def)
  show "\<forall>b\<in>R - {(a, k)}. disj (a, k) b"
  proof
    fix b' assume "b' \<in> R - {(a, k)}"
    then have "b' \<in> free_blks fl \<union> R \<union> {}" "(a, k) \<noteq> b'" by auto
    from tiling_disj [OF pinv_tiling [OF p'] bin this] show "disj (a, k) b'" .
  qed
  show "addr st a + of_nat (hdr c) \<noteq> 0" using payload_ptr(1) [OF p' bin] .
qed

lemma fit_no_clamp:
  assumes p: "pool_inv c st fl R" and fit: "unat sz + hdr c \<le> 2 ^ kval_m st"
  shows "unat sz + hdr c \<le> 2 ^ (MAX_K c - 1)"
proof -
  have "kval_m st < MAX_K c" using p by (simp add: pool_inv_def pinv_def pool_ok_def)
  then have "kval_m st \<le> MAX_K c - 1" by simp
  then have "(2::nat) ^ kval_m st \<le> 2 ^ (MAX_K c - 1)" by (simp add: power_increasing)
  with fit show ?thesis by (rule order_trans)
qed

lemma malloc_success:
  assumes inv: "pool_inv c st fl R" and m: "buddy_malloc c Pool st sz = Some (p, st1)"
    and p: "p \<noteq> 0"
  obtains a h1 fl1 where "sz \<noteq> 0" "p = addr st a + of_nat (hdr c)" "st1 = st\<lparr>heap := h1\<rparr>"
    "pool_inv c st1 fl1 (insert (a, btok c sz) R)" "(a, btok c sz) \<notin> R"
    "free_bytes c fl1 + 2 ^ btok c sz = free_bytes c fl"
proof -
  have sz: "sz \<noteq> 0" using m p by (auto simp: buddy_malloc_def)
  have "\<exists>i. btok c sz \<le> i \<and> i \<le> kval_m st \<and> fl i \<noteq> []"
  proof (rule ccontr)
    assume "\<not> (\<exists>i. btok c sz \<le> i \<and> i \<le> kval_m st \<and> fl i \<noteq> [])"
    then have "\<forall>j. btok c sz \<le> j \<and> j \<le> kval_m st \<longrightarrow> fl j = []" by blast
    from malloc_exhausted [OF inv sz this] m p show False by simp
  qed
  then obtain i where i: "btok c sz \<le> i" "i \<le> kval_m st" "fl i \<noteq> []"
    "\<forall>j. btok c sz \<le> j \<and> j < i \<longrightarrow> fl j = []"
    by (rule least_free_list)
  from malloc_ok [OF inv sz i] obtain h' fl' where
    r: "buddy_malloc c Pool st sz = Some (addr st (hd (fl i)) + of_nat (hdr c), st\<lparr>heap := h'\<rparr>)"
    "pool_inv c (st\<lparr>heap := h'\<rparr>) fl' (insert (hd (fl i), btok c sz) R)"
    "(hd (fl i), btok c sz) \<notin> R"
    "free_bytes c fl' + 2 ^ btok c sz = free_bytes c fl"
    by blast
  have "p = addr st (hd (fl i)) + of_nat (hdr c)" "st1 = st\<lparr>heap := h'\<rparr>"
    using m r(1) by simp_all
  then show ?thesis using that [of "hd (fl i)" h' fl'] sz r(2,3,4) by simp
qed

lemma pool_inv_bytes_upd [simp]: "pool_inv c (st\<lparr>bytes := f\<rparr>) fl R = pool_inv c st fl R"
  by (simp add: pool_inv_def pinv_def pool_ok_def dll_def nodes_def addr_def hdr_is_def)

lemma unat_old_size:
  assumes "hdr c \<le> 2 ^ k" "k < 64"
  shows "unat (2 ^ k - of_nat (hdr c) :: 64 word) = 2 ^ k - hdr c"
proof -
  have k: "(2::nat) ^ k < 2 ^ 64" using assms(2) by (intro power_strict_increasing) simp_all
  then have h: "unat (of_nat (hdr c) :: 64 word) = hdr c" using assms(1) by (simp add: unat_of_nat64)
  have "(of_nat (hdr c) :: 64 word) \<le> 2 ^ k"
    using assms by (simp add: word_le_nat_alt h unat_pow2)
  then have "unat (2 ^ k - of_nat (hdr c) :: 64 word) = unat (2 ^ k :: 64 word) - unat (of_nat (hdr c) :: 64 word)"
    by (rule unat_sub)
  then show ?thesis using assms(2) by (simp add: h unat_pow2)
qed

text \<open>What \<open>buddy_realloc\<close> reads before it decides.\<close>

lemma realloc_prelude:
  assumes inv: "pool_inv c st fl R" and blk: "(a, k) \<in> R"
  shows "addr st a + of_nat (hdr c) \<noteq> 0"
    and "rd c st (Addr (addr st a)) = Some (heap st (Addr (addr st a)))"
    and "kval (heap st (Addr (addr st a))) = k" and "shl1 k = Some (2 ^ k)"
    and "unat (2 ^ k - of_nat (hdr c) :: 64 word) = 2 ^ k - hdr c"
    and "a + 2 ^ k \<le> 2 ^ kval_m st" and "hdr c < 2 ^ k" and "k < 64"
proof -
  have p': "pinv c st fl R {}" using inv by (simp add: pool_inv_def)
  have ok: "pool_ok c st" using p' by (rule pinv_pool_ok)
  then have cok: "cfg_ok c" by (simp add: pool_ok_def)
  have bin: "(a, k) \<in> free_blks fl \<union> R \<union> {}" using blk by simp
  show "addr st a + of_nat (hdr c) \<noteq> 0" using payload_ptr(1) [OF p' bin] .
  show "rd c st (Addr (addr st a)) = Some (heap st (Addr (addr st a)))"
    using pinv_valid [OF p' bin] by (simp add: rd_valid)
  show "kval (heap st (Addr (addr st a))) = k"
    using pool_inv_block(3) [OF inv blk] by (simp add: hdr_is_def)
  have "k \<le> kval_m st" using pinv_lt(3) [OF p' bin] by simp
  then show k64: "k < 64" using pool_ok_lt64 [OF ok] by simp
  then show "shl1 k = Some (2 ^ k)" by (rule shl1_lt)
  have w: "wf_blk c (kval_m st) (a, k)" using pinv_wf [OF p' bin] .
  show h: "hdr c < 2 ^ k" using wf_blk_hdr(1) [OF cok w] by simp
  then show "unat (2 ^ k - of_nat (hdr c) :: 64 word) = 2 ^ k - hdr c"
    using k64 by (intro unat_old_size) simp_all
  show "a + 2 ^ k \<le> 2 ^ kval_m st" using w by (simp add: wf_blk_def)
qed

lemma realloc_zero:
  assumes inv: "pool_inv c st fl R" and blk: "(a, k) \<in> R"
  shows "\<exists>st'. buddy_realloc c Pool st (addr st a + of_nat (hdr c)) 0 = Some (0, st')"
proof -
  from free_ok [OF inv blk] obtain h' where
    "buddy_free c Pool st (addr st a + of_nat (hdr c)) = Some (st\<lparr>heap := h'\<rparr>)" by blast
  then show ?thesis using realloc_prelude(1) [OF inv blk] by (simp add: buddy_realloc_def)
qed

lemma in_range_payload:
  assumes ok: "pool_ok c st" and le: "x + hdr c + n \<le> 2 ^ kval_m st" and n: "unat w = n"
  shows "in_range st (addr st x + of_nat (hdr c)) w"
proof -
  have "x + hdr c < 2 ^ 64" using le pow_km_lt [OF ok] by simp
  then have "unat (addr st (x + hdr c) - base st) = x + hdr c" by (rule off_addr)
  then show ?thesis
    using ok le n by (simp add: in_range_def addr_plus unat_numbytes) (simp add: pool_ok_def)
qed

subsection \<open>The free lists are read off the state\<close>

lemma next_path_unique:
  fixes nx :: "'a \<Rightarrow> 'a"
  assumes "map nx (p # xs) = xs @ [s]" "map nx (p # ys) = ys @ [s]"
    and "s \<notin> set xs" "s \<notin> set ys"
  shows "xs = ys"
  using assms
proof (induction xs arbitrary: p ys)
  case Nil
  then show ?case by (cases ys) auto
next
  case (Cons x xs)
  show ?case
  proof (cases ys)
    case Nil
    then show ?thesis using Cons.prems by auto
  next
    case (Cons y ys')
    have xy: "x = y" using Cons.prems(1,2) Cons by simp
    have "map nx (x # xs) = xs @ [s]" "map nx (x # ys') = ys' @ [s]"
      using Cons.prems(1,2) Cons xy by simp_all
    moreover have "s \<notin> set xs" "s \<notin> set ys'" using Cons.prems(3,4) Cons by simp_all
    ultimately have "xs = ys'" by (rule Cons.IH)
    then show ?thesis using xy Cons by simp
  qed
qed

lemma free_lists_unique:
  assumes p: "pool_inv c st fl R" and p': "pool_inv c st fl' R'"
  shows "free_bytes c fl' = free_bytes c fl"
proof -
  have q: "pinv c st fl R {}" and q': "pinv c st fl' R' {}"
    using p p' by (simp_all add: pool_inv_def)
  have "fl' i = fl i" if i: "i < MAX_K c" for i
  proof -
    have "map (\<lambda>p. next (heap st p)) (Sent i # nodes st (fl i)) = nodes st (fl i) @ [Sent i]"
      "map (\<lambda>p. next (heap st p)) (Sent i # nodes st (fl' i)) = nodes st (fl' i) @ [Sent i]"
      using pinv_dll [OF q i] pinv_dll [OF q' i] by (simp_all add: dllp_def)
    then have e: "nodes st (fl i) = nodes st (fl' i)"
      by (rule next_path_unique) (rule sent_not_node)+
    have lt: "x < 2 ^ kval_m st" if "x \<in> set (fl i) \<union> set (fl' i)" for x
    proof -
      from that consider "(x, i) \<in> free_blks fl \<union> R \<union> {}" | "(x, i) \<in> free_blks fl' \<union> R' \<union> {}"
        by (auto simp: free_blks_iff)
      then show ?thesis
      proof cases
        case 1
        from pinv_lt(1) [OF q this] show ?thesis by simp
      next
        case 2
        from pinv_lt(1) [OF q' this] show ?thesis by simp
      qed
    qed
    have "inj_on (\<lambda>x. Addr (addr st x)) (set (fl i) \<union> set (fl' i))"
    proof (rule inj_onI)
      fix x y assume "x \<in> set (fl i) \<union> set (fl' i)" "y \<in> set (fl i) \<union> set (fl' i)"
        and "Addr (addr st x) = Addr (addr st y)"
      then show "x = y" using addr_inj [OF pinv_pool_ok [OF q] lt lt, of x y] by simp
    qed
    then show ?thesis using e unfolding nodes_def by (metis inj_on_map_eq_map)
  qed
  then show ?thesis by (simp add: free_bytes_def)
qed

section \<open>Auxiliary facts for the resize\<close>

text \<open>Comparing offsets inside an arena of at most \<open>2 ^ 63\<close> bytes.\<close>

lemma word_off_less:
  fixes w :: "64 word"
  assumes u: "u < 2 ^ 63" and d: "d < 2 ^ 63" and w: "unat w \<le> 2 ^ 63"
  shows "((of_nat u :: 64 word) - of_nat d < w) \<longleftrightarrow> (d \<le> u \<and> u - d < unat w)"
proof (cases "d \<le> u")
  case True
  then have e: "(of_nat u :: 64 word) - of_nat d = of_nat (u - d)" by simp
  have "u - d < 2 ^ 64" using u by simp
  then have "unat (of_nat (u - d) :: 64 word) = u - d" by (rule unat_of_nat64)
  then show ?thesis using True by (simp only: e word_less_nat_alt) simp
next
  case False
  define x :: "64 word" where "x = of_nat u - of_nat d"
  have "\<not> x < w"
  proof
    assume "x < w"
    then have "unat x < 2 ^ 63" using w by (simp add: word_less_nat_alt)
    then have "unat x + d < 2 ^ 64" using d by simp
    then have "unat (x + of_nat d) = unat x + d" by (rule unat_plus_hdr)
    moreover have "x + of_nat d = of_nat u" by (simp add: x_def)
    moreover have "u < 2 ^ 64" using u by simp
    then have "unat (of_nat u :: 64 word) = u" by (rule unat_of_nat64)
    ultimately have "u = unat x + d" by simp
    then show False using False by simp
  qed
  then show ?thesis using False by (simp add: x_def)
qed

text \<open>
  The invariant reads the headers only at the list heads and at the first bytes of the blocks.
\<close>

lemma pool_inv_frame:
  assumes p: "pool_inv c st fl R"
    and f: "kval_m st' = kval_m st" "numbytes st' = numbytes st" "base st' = base st"
    and s: "\<And>i. heap st' (Sent i) = heap st (Sent i)"
    and b: "\<And>x j. (x, j) \<in> free_blks fl \<union> R \<Longrightarrow>
               heap st' (Addr (addr st x)) = heap st (Addr (addr st x))"
  shows "pool_inv c st' fl R"
proof -
  have q: "pinv c st fl R {}" using p by (simp add: pool_inv_def)
  have ad: "addr st' = addr st" using f(3) by (simp add: addr_def fun_eq_iff)
  have nd: "nodes st' = nodes st" using ad by (simp add: nodes_def fun_eq_iff)
  have ok: "pool_ok c st'" using pinv_pool_ok [OF q] f by (simp add: pool_ok_def)
  have d: "dll st' i (fl i)" if i: "i < MAX_K c" for i
  proof -
    have "dllp (heap st') (Sent i) (nodes st (fl i))"
    proof (rule dllp_frame [OF pinv_dll [OF q i]])
      fix r assume "r \<in> set (Sent i # nodes st (fl i))"
      then have "heap st' r = heap st r"
        using s b [of _ i] by (auto simp: nodes_def free_blks_iff)
      then show "next (heap st' r) = next (heap st r)" "prev (heap st' r) = prev (heap st r)"
        by simp_all
    qed
    then show ?thesis by (simp add: dll_def nd)
  qed
  have h: "hdr_is st' t bl" if "hdr_is st t bl" "bl \<in> free_blks fl \<union> R" for t bl
    using that b [of "fst bl" "snd bl"] by (simp add: hdr_is_def ad)
  have "pinv c st' fl R {}"
    unfolding pinv_def
  proof (intro conjI)
    show "pool_ok c st'" by (rule ok)
    show "\<forall>i<MAX_K c. dll st' i (fl i)" using d by blast
    show "\<forall>i. distinct (fl i)" using q by (simp add: pinv_def)
    show "tiling c (kval_m st') (free_blks fl \<union> R \<union> {})" using q f(1) by (simp add: pinv_def)
    show "free_blks fl \<inter> {} = {}" "R \<inter> {} = {}" by simp_all
    show "\<forall>b\<in>free_blks fl. hdr_is st' BLOCK_AVAIL b" using q h by (simp add: pinv_def)
    show "\<forall>b\<in>R. hdr_is st' BLOCK_RESERVED b" using q h by (simp add: pinv_def)
  qed
  then show ?thesis by (simp add: pool_inv_def)
qed

text \<open>While a block is handed out, the list of the top order is empty.\<close>

lemma reserved_top_empty:
  assumes p: "pool_inv c st fl R" and b: "(a, k) \<in> R"
  shows "fl (kval_m st) = []"
proof (rule ccontr)
  assume "fl (kval_m st) \<noteq> []"
  then obtain x where x: "x \<in> set (fl (kval_m st))" by (cases "fl (kval_m st)") auto
  have q: "pinv c st fl R {}" using p by (simp add: pool_inv_def)
  have xin: "(x, kval_m st) \<in> free_blks fl \<union> R \<union> {}" using x by (simp add: free_blks_iff)
  have bin: "(a, k) \<in> free_blks fl \<union> R \<union> {}" using b by simp
  have ne: "(x, kval_m st) \<noteq> (a, k)" using pinv_free_not_reserved(1) [OF q x] b by auto
  define K :: nat where "K = 2 ^ kval_m st"
  define L :: nat where "L = 2 ^ k"
  have "disj (x, kval_m st) (a, k)" using tiling_disj [OF pinv_tiling [OF q] xin bin ne] .
  then have "x + K \<le> a \<or> a + L \<le> x" by (simp add: disj_def K_def L_def)
  moreover have "a + L \<le> K" using pinv_wf [OF q bin] by (simp add: wf_blk_def K_def L_def)
  moreover have "x + K \<le> K" using pinv_wf [OF q xin] by (simp add: wf_blk_def K_def)
  moreover have "0 < L" by (simp add: L_def)
  ultimately show False by linarith
qed

lemma btok_top:
  assumes ok: "cfg_ok c" and nz: "s \<noteq> 0" and nw: "unat s + hdr c < 2 ^ 64"
    and gt: "2 ^ (MAX_K c - 1) < unat s + hdr c"
  shows "btok c s = MAX_K c - 1"
proof -
  have m: "2 \<le> MAX_K c" using ok cfg_ok_SMALLEST_pos [OF ok] by (simp add: cfg_ok_def)
  have "(2::nat) ^ (MAX_K c - 2) \<le> 2 ^ (MAX_K c - 1)" by (intro power_increasing) simp_all
  then have "2 ^ (MAX_K c - 2) < unat s + hdr c" using gt by (rule le_less_trans)
  moreover have "MAX_K c - 2 + 1 < MAX_K c" using m by simp
  ultimately have "MAX_K c - 2 < btok c s" by (rule btok_exceeds [OF ok nz nw])
  moreover have "btok c s \<le> MAX_K c - 1" using btok_range [OF ok nz] by simp
  ultimately show ?thesis by simp
qed

text \<open>A request that does not wrap around and is served has room in its block.\<close>

lemma served_fits:
  assumes p: "pool_inv c st fl R" and b: "(a, k) \<in> R" and nz: "s \<noteq> 0"
    and nw: "unat s + hdr c < 2 ^ 64"
    and i: "btok c s \<le> i" "i \<le> kval_m st" "fl i \<noteq> []"
  shows "unat s + hdr c \<le> 2 ^ btok c s"
proof (cases "unat s + hdr c \<le> 2 ^ (MAX_K c - 1)")
  case True
  have "cfg_ok c" using p by (simp add: pool_inv_def pinv_def pool_ok_def)
  then show ?thesis using nz True by (rule btok_fits)
next
  case False
  have ok: "pool_ok c st" using p by (simp add: pool_inv_def pinv_def)
  then have cok: "cfg_ok c" and km: "kval_m st < MAX_K c" by (simp_all add: pool_ok_def)
  have "btok c s = MAX_K c - 1" using cok nz nw False by (intro btok_top) simp_all
  then have "i = kval_m st" using i(1,2) km by simp
  then show ?thesis using i(3) reserved_top_empty [OF p b] by simp
qed

text \<open>
  \<open>memcpy\<close> overwrites the headers in its destination: a header that lies in the range is
  afterwards the header that lay at the same place of the source.
\<close>

lemma memcpy_overwrites:
  assumes m: "memcpy c st dst src n = Some st'" and h: "0 < hdr c" and i: "i + hdr c \<le> unat n"
  shows "heap st' (Addr (dst + of_nat i)) = heap st (Addr (src + of_nat i))"
proof -
  have "unat n < 2 ^ LENGTH(64)" by (rule unsigned_less)
  then have "i < 2 ^ 64" using i by simp
  then have "unat (of_nat i :: 64 word) = i" by (rule unat_of_nat64)
  then have "(of_nat i :: 64 word) < n" using i h by (simp add: word_less_nat_alt)
  then have "dst + of_nat i + of_nat 0 - dst < n" by simp
  then have e: "\<exists>j<hdr c. dst + of_nat i + of_nat j - dst < n" using h by blast
  have s: "st' = st\<lparr>bytes := (\<lambda>a. if a - dst < n then bytes st (src + (a - dst)) else bytes st a),
                 heap := (\<lambda>p. case p of
                            Sent i \<Rightarrow> heap st p
                          | Addr a \<Rightarrow>
                              if \<exists>i<hdr c. a + of_nat i - dst < n
                              then heap st (Addr (src + (a - dst)))
                              else heap st p)\<rparr>"
    using m by (simp add: memcpy_def split: if_splits)
  show ?thesis unfolding s using e by simp
qed

text \<open>
  \<open>buddy_realloc\<close> copies to the bytes behind the header of a block, and as many bytes as
  the payload of a block has. In a well-formed arena such a range holds the header of a block
  whole or not at all, whatever the orders of the two blocks are.
\<close>

lemma copy_whole_headers:
  assumes p: "pool_inv c st fl R" and d: "(a', k') \<in> free_blks fl \<union> R"
    and o: "(a, k) \<in> free_blks fl \<union> R" and x: "(x, j) \<in> free_blks fl \<union> R"
    and i: "i < hdr c"
    and t: "addr st x + of_nat i - (addr st a' + of_nat (hdr c)) < 2 ^ k - of_nat (hdr c)"
  shows "a' + hdr c \<le> x" "x + hdr c \<le> a' + 2 ^ k"
proof -
  define S :: nat where "S = 2 ^ SMALLEST_K c"
  define K :: nat where "K = 2 ^ k"
  define M :: nat where "M = 2 ^ kval_m st"
  define H where "H = hdr c"
  define T :: nat where "T = 2 ^ 63"
  have q: "pinv c st fl R {}" using p by (simp add: pool_inv_def)
  have ok: "pool_ok c st" using q by (rule pinv_pool_ok)
  then have cok: "cfg_ok c" by (simp add: pool_ok_def)
  have din: "(a', k') \<in> free_blks fl \<union> R \<union> {}" and oin: "(a, k) \<in> free_blks fl \<union> R \<union> {}"
    and xin: "(x, j) \<in> free_blks fl \<union> R \<union> {}"
    using d o x by simp_all
  note wd = pinv_wf [OF q din] and wo = pinv_wf [OF q oin] and wx = pinv_wf [OF q xin]
  have "kval_m st \<le> 63" using pool_ok_lt64 [OF ok] by simp
  then have "(2::nat) ^ kval_m st \<le> 2 ^ 63" by (intro power_increasing) simp_all
  then have MT: "M \<le> T" by (simp add: M_def T_def)
  have HS: "H < S" using cok by (simp add: cfg_ok_def H_def S_def)
  have Sd: "S dvd a'" "S dvd x" "S dvd K"
    using wd wx wo
    by (auto simp: wf_blk_def S_def K_def intro: pow2_dvd_mono le_imp_power_dvd)
  have b: "a' + H < M" "x + H \<le> M" "H < K" "K \<le> M"
    using wf_blk_hdr(1) [OF cok wd] wd wf_blk_hdr(2) [OF cok wx] wf_blk_hdr(1) [OF cok wo] wo
    by (simp_all add: M_def H_def K_def wf_blk_def)
  have k64: "k < 64" using pinv_lt(3) [OF q oin] pool_ok_lt64 [OF ok] by simp
  have uw: "unat (2 ^ k - of_nat (hdr c) :: 64 word) = K - H"
    using unat_old_size [of c k] b(3) k64 by (simp add: K_def H_def)
  have wT: "unat (2 ^ k - of_nat (hdr c) :: 64 word) \<le> 2 ^ 63" using uw b MT by (simp add: T_def)
  have l: "x + i < 2 ^ 63" "a' + H < 2 ^ 63" using b i MT by (simp_all add: T_def H_def)
  have e: "addr st x + of_nat i - (addr st a' + of_nat (hdr c)) = of_nat (x + i) - of_nat (a' + H)"
    by (simp add: addr_def H_def)
  from t have r: "a' + H \<le> x + i" "x + i - (a' + H) < K - H"
    unfolding e word_off_less [OF l wT] uw by simp_all
  have "a' < x" using r(1) i by (simp add: H_def)
  with Sd(1,2) have "a' + S \<le> x" by (rule mult_gap)
  then show "a' + hdr c \<le> x" using HS by (simp add: H_def)
  have "x < a' + K" using r b by linarith
  moreover have "S dvd a' + K" using Sd(1,3) by (rule dvd_add)
  ultimately have "x + S \<le> a' + K" using Sd(2) by (intro mult_gap)
  then show "x + hdr c \<le> a' + 2 ^ k" using HS by (simp add: H_def K_def)
qed

text \<open>
  Copying the payload of one handed-out block into the payload of another that is at least as
  large: the ranges lie in the arena and do not overlap, no header of a block is written, and
  nothing is written inside any other block that is handed out.
\<close>

lemma memcpy_payload:
  assumes p: "pool_inv c st fl R" and a: "(a, k) \<in> R" and a': "(a', k') \<in> R"
    and ne: "(a, k) \<noteq> (a', k')" and kk: "k \<le> k'"
  shows "\<exists>st2. memcpy c st (addr st a' + of_nat (hdr c)) (addr st a + of_nat (hdr c))
                  (2 ^ k - of_nat (hdr c)) = Some st2 \<and>
           pool_inv c st2 fl R \<and> base st2 = base st \<and> kval_m st2 = kval_m st \<and>
           same_in c st (R - {(a', k')}) (heap st) (heap st2) \<and>
           (\<forall>j<2 ^ k - hdr c.
              bytes st2 (addr st a' + of_nat (hdr c) + of_nat j) =
              bytes st (addr st a + of_nat (hdr c) + of_nat j))"
proof -
  let ?q = "addr st a' + of_nat (hdr c)"
  let ?p = "addr st a + of_nat (hdr c)"
  let ?w = "2 ^ k - of_nat (hdr c) :: 64 word"
  define K :: nat where "K = 2 ^ k"
  define K' :: nat where "K' = 2 ^ k'"
  define M :: nat where "M = 2 ^ kval_m st"
  define H where "H = hdr c"
  define T :: nat where "T = 2 ^ 63"
  have q: "pinv c st fl R {}" using p by (simp add: pool_inv_def)
  have ok: "pool_ok c st" using q by (rule pinv_pool_ok)
  then have cok: "cfg_ok c" by (simp add: pool_ok_def)
  note pa = realloc_prelude [OF p a]
  note pa' = realloc_prelude [OF p a']
  have "kval_m st \<le> 63" using pool_ok_lt64 [OF ok] by simp
  then have "(2::nat) ^ kval_m st \<le> 2 ^ 63" by (intro power_increasing) simp_all
  then have MT: "M \<le> T" by (simp add: M_def T_def)
  have KK: "K \<le> K'" using kk by (simp add: K_def K'_def power_increasing)
  have b: "a + K \<le> M" "a' + K' \<le> M" "H < K" "H < K'"
    using pa(6,7) pa'(6,7) by (simp_all add: K_def K'_def M_def H_def)
  have uw: "unat ?w = K - H" using pa(5) by (simp add: K_def H_def)
  have wT: "unat ?w \<le> 2 ^ 63" using uw b MT by (simp add: T_def)
  have ain: "(a, k) \<in> free_blks fl \<union> R \<union> {}" and a'in: "(a', k') \<in> free_blks fl \<union> R \<union> {}"
    using a a' by simp_all
  have "disj (a, k) (a', k')" using tiling_disj [OF pinv_tiling [OF q] ain a'in ne] .
  then have dj: "a + K \<le> a' \<or> a' + K' \<le> a" by (simp add: disj_def K_def K'_def)
  \<comment> \<open>both ranges lie in the arena\<close>
  have r1: "in_range st ?q ?w"
    using in_range_payload [OF ok, of a' "K - H" ?w] b KK uw by (simp add: M_def H_def)
  have r2: "in_range st ?p ?w"
    using in_range_payload [OF ok, of a "K - H" ?w] b uw by (simp add: M_def H_def)
  \<comment> \<open>and do not overlap\<close>
  have qp: "?q - ?p = of_nat (a' + H) - of_nat (a + H)"
    and pq: "?p - ?q = of_nat (a + H) - of_nat (a' + H)"
    by (simp_all add: addr_def H_def)
  have lt: "a + H < 2 ^ 63" "a' + H < 2 ^ 63" using b MT by (simp_all add: T_def)
  have o1: "\<not> ?q - ?p < ?w"
    unfolding qp word_off_less [OF lt(2) lt(1) wT] uw using dj b KK by linarith
  have o2: "\<not> ?p - ?q < ?w"
    unfolding pq word_off_less [OF lt(1) lt(2) wT] uw using dj b KK by linarith
  define Bn where "Bn = (\<lambda>x. if x - ?q < ?w then bytes st (?p + (x - ?q)) else bytes st x)"
  define Hn where "Hn = (\<lambda>r. case r of
                            Sent i \<Rightarrow> heap st r
                          | Addr x \<Rightarrow>
                              if \<exists>i<hdr c. x + of_nat i - ?q < ?w
                              then heap st (Addr (?p + (x - ?q)))
                              else heap st r)"
  have mc: "memcpy c st ?q ?p ?w = Some (st\<lparr>bytes := Bn, heap := Hn\<rparr>)"
    using r1 r2 o1 o2 by (simp add: memcpy_def Bn_def Hn_def)
  \<comment> \<open>a header is written only if it ends behind the header of the destination block and
      begins before the end of that block\<close>
  have out: "Hn (Addr (addr st x)) = heap st (Addr (addr st x))"
    if far: "x + H \<le> a' + H \<or> a' + K' \<le> x" and xM: "x + H \<le> M" for x
  proof -
    have "\<not> (addr st x + of_nat i - ?q < ?w)" if i: "i < hdr c" for i
    proof -
      have e: "addr st x + of_nat i - ?q = of_nat (x + i) - of_nat (a' + H)"
        by (simp add: addr_def H_def)
      have l: "x + i < 2 ^ 63" using xM i MT b by (simp add: T_def H_def)
      show ?thesis
        unfolding e word_off_less [OF l lt(2) wT] uw using far i b KK by (simp add: H_def) linarith
    qed
    then have "\<not> (\<exists>i<hdr c. addr st x + of_nat i - ?q < ?w)" by blast
    then show ?thesis unfolding Hn_def by (simp only: ptr.case if_False)
  qed
  \<comment> \<open>no header of a block is written\<close>
  have keep: "Hn (Addr (addr st x)) = heap st (Addr (addr st x))"
    if xin: "(x, j) \<in> free_blks fl \<union> R" for x j
  proof -
    define J :: nat where "J = 2 ^ j"
    have xin': "(x, j) \<in> free_blks fl \<union> R \<union> {}" using xin by simp
    have w: "wf_blk c (kval_m st) (x, j)" using pinv_wf [OF q xin'] .
    have xb: "x + J \<le> M" "H < J"
      using w wf_blk_hdr(1) [OF cok w] by (simp_all add: wf_blk_def J_def M_def H_def)
    have far: "x + H \<le> a' + H \<or> a' + K' \<le> x"
    proof (cases "(x, j) = (a', k')")
      case True
      then show ?thesis by simp
    next
      case False
      from tiling_disj [OF pinv_tiling [OF q] xin' a'in False]
      have "x + J \<le> a' \<or> a' + K' \<le> x" by (simp add: disj_def J_def K'_def)
      then show ?thesis using xb by linarith
    qed
    show ?thesis using far by (rule out) (use xb in linarith)
  qed
  \<comment> \<open>and nothing inside another block that is handed out\<close>
  have others: "same_in c st (R - {(a', k')}) (heap st) Hn"
    unfolding same_in_def
  proof (intro ballI allI impI)
    fix bl x assume bl: "bl \<in> R - {(a', k')}"
      and x: "fst bl \<le> x \<and> x + hdr c \<le> fst bl + 2 ^ snd bl"
    define L :: nat where "L = 2 ^ snd bl"
    have blin: "bl \<in> free_blks fl \<union> R \<union> {}" and bne: "bl \<noteq> (a', k')" using bl by simp_all
    have "disj bl (a', k')" using tiling_disj [OF pinv_tiling [OF q] blin a'in bne] .
    then have d: "fst bl + L \<le> a' \<or> a' + K' \<le> fst bl" by (simp add: disj_def L_def K'_def)
    have e: "fst bl + L \<le> M" using pinv_wf [OF q blin] by (simp add: wf_blk_def L_def M_def)
    have x': "fst bl \<le> x" "x + H \<le> fst bl + L" using x by (simp_all add: L_def H_def)
    have "x + H \<le> a' + H \<or> a' + K' \<le> x" using d x' by linarith
    then show "Hn (Addr (addr st x)) = heap st (Addr (addr st x))"
      by (rule out) (use e x' in linarith)
  qed
  have "pool_inv c (st\<lparr>bytes := Bn, heap := Hn\<rparr>) fl R"
    by (rule pool_inv_frame [OF p]) (simp_all add: keep, simp add: Hn_def)
  moreover have "Bn (?q + of_nat j) = bytes st (?p + of_nat j)" if j: "j < 2 ^ k - hdr c" for j
  proof -
    have "j < 2 ^ 64" using j b MT by (simp add: K_def T_def)
    then have "unat (of_nat j :: 64 word) = j" by (rule unat_of_nat64)
    then have "(of_nat j :: 64 word) < ?w" using j by (simp add: word_less_nat_alt pa(5))
    then show ?thesis by (simp add: Bn_def)
  qed
  ultimately show ?thesis using mc others by simp
qed

section \<open>What the allocator leaves alone\<close>

text \<open>
  \<open>buddy_malloc\<close> and \<open>buddy_free\<close> write headers only at the list heads and at the first
  bytes of blocks that are free or in their hands. So they write nothing inside a block that is
  handed out: neither its header nor a header-sized piece of its payload changes.
\<close>

lemma same_in_refl: "same_in c st R h h"
  by (simp add: same_in_def)

lemma same_in_trans: "same_in c st R h h1 \<Longrightarrow> same_in c st R h1 h2 \<Longrightarrow> same_in c st R h h2"
  by (simp add: same_in_def)

lemma same_in_base: "base st' = base st \<Longrightarrow> same_in c st' R h h' = same_in c st R h h'"
  by (simp add: same_in_def addr_def)

lemma same_in_mono: "R' \<subseteq> R \<Longrightarrow> same_in c st R h h' \<Longrightarrow> same_in c st R' h h'"
  by (auto simp: same_in_def)

lemma same_inD:
  assumes "same_in c st R h h'" "b \<in> R" "fst b \<le> x" "x + hdr c \<le> fst b + 2 ^ snd b"
  shows "h' (Addr (addr st x)) = h (Addr (addr st x))"
  using assms by (simp add: same_in_def)

lemma inside_not_start:
  assumes p: "pinv c st fl R D" and y: "(y, j) \<in> free_blks fl \<union> D" and b: "b \<in> R"
    and x: "fst b \<le> x" "x + hdr c \<le> fst b + 2 ^ snd b"
  shows "Addr (addr st x) \<noteq> Addr (addr st y)"
proof -
  define B :: nat where "B = 2 ^ snd b"
  define J :: nat where "J = 2 ^ j"
  have ok: "pool_ok c st" using p by (rule pinv_pool_ok)
  then have cok: "cfg_ok c" by (simp add: pool_ok_def)
  have yin: "(y, j) \<in> free_blks fl \<union> R \<union> D" and bin: "b \<in> free_blks fl \<union> R \<union> D"
    using y b by auto
  have ne: "(y, j) \<noteq> b"
  proof
    assume e: "(y, j) = b"
    from y show False
    proof
      assume "(y, j) \<in> free_blks fl"
      then have "y \<in> set (fl j)" by (simp add: free_blks_iff)
      from pinv_free_not_reserved(1) [OF p this] b e show False by simp
    next
      assume "(y, j) \<in> D"
      then show False using p b e by (auto simp: pinv_def)
    qed
  qed
  have "disj (y, j) b" using tiling_disj [OF pinv_tiling [OF p] yin bin ne] .
  then have d: "y + J \<le> fst b \<or> fst b + B \<le> y" by (simp add: disj_def B_def J_def)
  have h: "0 < hdr c" using cok by (simp add: cfg_ok_def)
  have J: "0 < J" by (simp add: J_def)
  have x': "fst b \<le> x" "x + hdr c \<le> fst b + B" using x by (simp_all add: B_def)
  have xy: "x \<noteq> y" using d x' h J by linarith
  have "fst b + B \<le> 2 ^ kval_m st" using pinv_wf [OF p bin] by (simp add: wf_blk_def B_def)
  then have xl: "x < 2 ^ kval_m st" using x' h by linarith
  have yl: "y < 2 ^ kval_m st" using pinv_lt(1) [OF p yin] by simp
  show ?thesis using addr_inj [OF ok xl yl] xy by simp
qed

lemma same_in_changed:
  assumes p: "pinv c st fl R D"
    and ch: "\<And>r. h' r \<noteq> h r \<Longrightarrow>
               r \<in> range Sent \<union> (\<lambda>b. Addr (addr st (fst b))) ` (free_blks fl \<union> D)"
  shows "same_in c st R h h'"
  unfolding same_in_def
proof (intro ballI allI impI)
  fix b x assume b: "b \<in> R" and x: "fst b \<le> x \<and> x + hdr c \<le> fst b + 2 ^ snd b"
  show "h' (Addr (addr st x)) = h (Addr (addr st x))"
  proof (rule ccontr)
    assume "h' (Addr (addr st x)) \<noteq> h (Addr (addr st x))"
    from ch [OF this] obtain b' where "b' \<in> free_blks fl \<union> D"
      "Addr (addr st x) = Addr (addr st (fst b'))"
      by auto
    then show False using inside_not_start [OF p _ b, of "fst b'" "snd b'" x] x by simp
  qed
qed

lemma node_is_start:
  assumes "r \<in> set (Sent i # nodes st (fl i))"
  shows "r \<in> range Sent \<union> (\<lambda>b. Addr (addr st (fst b))) ` (free_blks fl \<union> D)"
proof (cases r)
  case (Sent j)
  then show ?thesis by simp
next
  case (Addr w)
  then obtain y where "y \<in> set (fl i)" "w = addr st y" using assms by (auto simp: nodes_mem)
  then have "(y, i) \<in> free_blks fl \<union> D" "r = Addr (addr st (fst (y, i)))"
    using Addr by (simp_all add: free_blks_iff)
  then show ?thesis by blast
qed

lemma unlink_same:
  assumes p: "pinv c st fl R D" and a: "a \<in> set (fl i)"
  shows "same_in c st R (heap st) (unlink_h (heap st) (Addr (addr st a)))"
proof (rule same_in_changed [OF p])
  let ?x = "Addr (addr st a)"
  let ?h = "heap st"
  fix r assume r: "unlink_h ?h ?x r \<noteq> ?h r"
  have ai: "(a, i) \<in> free_blks fl \<union> R \<union> D" using a by (simp add: free_blks_iff)
  have i: "i < MAX_K c" using pinv_lt(2) [OF p ai] by simp
  have d: "dllp ?h (Sent i) (nodes st (fl i))" using pinv_dll [OF p i] .
  have xin: "?x \<in> set (nodes st (fl i))" using a by (auto simp: nodes_mem)
  note links = dllp_links [OF d xin]
  have "r = prev (?h ?x) \<or> r = next (?h ?x)"
    using r by (auto simp: unlink_h_def Let_def split: if_splits)
  then have "r \<in> set (Sent i # nodes st (fl i))" using links by auto
  then show "r \<in> range Sent \<union> (\<lambda>b. Addr (addr st (fst b))) ` (free_blks fl \<union> D)"
    by (rule node_is_start)
qed

lemma push_same:
  assumes p: "pinv c st fl R D" and b: "(a, i) \<in> D"
  shows "same_in c st R (heap st) (push_h (heap st) (Sent i) (Addr (addr st a)))"
proof (rule same_in_changed [OF p])
  let ?x = "Addr (addr st a)"
  let ?h = "heap st"
  fix r assume r: "push_h ?h (Sent i) ?x r \<noteq> ?h r"
  have ai: "(a, i) \<in> free_blks fl \<union> R \<union> D" using b by simp
  have i: "i < MAX_K c" using pinv_lt(2) [OF p ai] by simp
  have d: "dllp ?h (Sent i) (nodes st (fl i))" using pinv_dll [OF p i] .
  have hd: "next (?h (Sent i)) \<in> set (Sent i # nodes st (fl i))"
    using dllp_head [OF d] by (cases "nodes st (fl i)") auto
  have "r = ?x \<or> r = Sent i \<or> r = next (?h (Sent i))"
    using r by (auto simp: push_h_def Let_def split: if_splits)
  then consider "r = ?x" | "r \<in> set (Sent i # nodes st (fl i))" using hd by auto
  then show "r \<in> range Sent \<union> (\<lambda>b. Addr (addr st (fst b))) ` (free_blks fl \<union> D)"
  proof cases
    case 1
    have "(a, i) \<in> free_blks fl \<union> D" "r = Addr (addr st (fst (a, i)))" using b 1 by simp_all
    then show ?thesis by blast
  next
    case 2
    then show ?thesis by (rule node_is_start)
  qed
qed

lemma wr_same:
  assumes p: "pinv c st fl R D" and b: "b \<in> D"
  shows "same_in c st R (heap st) ((heap st)(Addr (addr st (fst b)) := v))"
proof (rule same_in_changed [OF p])
  fix r assume "((heap st)(Addr (addr st (fst b)) := v)) r \<noteq> heap st r"
  then have "r = Addr (addr st (fst b))" by (auto split: if_splits)
  then show "r \<in> range Sent \<union> (\<lambda>b. Addr (addr st (fst b))) ` (free_blks fl \<union> D)"
    using b by blast
qed

lemma same_in_heap_upd [simp]: "same_in c (st\<lparr>heap := g\<rparr>) R h h' = same_in c st R h h'"
  by (simp add: same_in_def)

lemma split_loop_same:
  assumes p: "pinv c st fl R {(a, i)}" and k: "k \<le> i" and s: "SMALLEST_K c \<le> k"
    and r: "split_loop c st (addr st a) i k = Some st'"
  shows "same_in c st R (heap st) (heap st')"
  using p k r
proof (induction i arbitrary: st fl)
  case 0
  then have "k = 0" by simp
  then have "split_loop c st (addr st a) 0 k = Some st" by (subst split_loop.simps) simp
  then show ?case using 0(3) by (simp add: same_in_refl)
next
  case (Suc j)
  note p = \<open>pinv c st fl R {(a, Suc j)}\<close>
  note r = \<open>split_loop c st (addr st a) (Suc j) k = Some st'\<close>
  show ?case
  proof (cases "k = Suc j")
    case True
    then have "split_loop c st (addr st a) (Suc j) k = Some st" by (subst split_loop.simps) simp
    then show ?thesis using r by (simp add: same_in_refl)
  next
    case False
    then have kj: "k \<le> j" using Suc.prems(2) by simp
    then have sj: "SMALLEST_K c \<le> j" using s by simp
    let ?b = "a + 2 ^ j"
    have ok: "pool_ok c st" using p by (rule pinv_pool_ok)
    have "(a, Suc j) \<in> free_blks fl \<union> R \<union> {(a, Suc j)}" by simp
    from pinv_lt(3) [OF p this] have "Suc j \<le> kval_m st" by simp
    then have j64: "j < 64" using pool_ok_lt64 [OF ok] by simp
    have p1: "pinv c st fl R {(a, j), (?b, j)}"
      using pinv_split [OF p _ sj, of a] by (simp add: insert_commute)
    let ?x = "Addr (addr st ?b)"
    let ?h1 = "(heap st)(?x := (heap st ?x)\<lparr>tag := BLOCK_AVAIL\<rparr>)"
    let ?st1 = "st\<lparr>heap := ?h1\<rparr>"
    have w1: "wr c st ?x (\<lambda>h. h\<lparr>tag := BLOCK_AVAIL\<rparr>) = Some ?st1"
      and p2: "pinv c ?st1 fl R {(a, j), (?b, j)}"
      using pinv_wr_detached [OF p1, of "(?b, j)" "\<lambda>h. h\<lparr>tag := BLOCK_AVAIL\<rparr>"] by simp_all
    have s1: "same_in c st R (heap st) ?h1" using wr_same [OF p1, of "(?b, j)"] by simp
    let ?h2 = "?h1(?x := (?h1 ?x)\<lparr>kval := j\<rparr>)"
    let ?st2 = "st\<lparr>heap := ?h2\<rparr>"
    have w2: "wr c ?st1 ?x (\<lambda>h. h\<lparr>kval := j\<rparr>) = Some ?st2"
      and p3: "pinv c ?st2 fl R {(a, j), (?b, j)}"
      using pinv_wr_detached [OF p2, of "(?b, j)" "\<lambda>h. h\<lparr>kval := j\<rparr>"] by simp_all
    have s2: "same_in c st R ?h1 ?h2" using wr_same [OF p2, of "(?b, j)"] by simp
    have hb: "hdr_is ?st2 BLOCK_AVAIL (?b, j)" by simp
    let ?h3 = "push_h ?h2 (Sent j) ?x"
    let ?st3 = "st\<lparr>heap := ?h3\<rparr>"
    let ?fl3 = "fl(j := ?b # fl j)"
    have w3: "push_front c ?st2 j ?x = Some ?st3"
      and p4: "pinv c ?st3 ?fl3 R ({(a, j), (?b, j)} - {(?b, j)})"
      using pinv_push [OF p3 _ hb] by simp_all
    have s3: "same_in c st R ?h2 ?h3" using push_same [OF p3, of ?b j] by simp
    have "{(a, j), (?b, j)} - {(?b, j)} = {(a, j)}" by auto
    then have p5: "pinv c ?st3 ?fl3 R {(a, j)}" using p4 by simp
    have "split_loop c st (addr st a) (Suc j) k = split_loop c ?st3 (addr st a) j k"
      using False Suc.prems(2) w1 w2 w3
      by (subst split_loop.simps) (simp add: shl1_lt [OF j64] addr_plus_pow)
    then have "split_loop c ?st3 (addr ?st3 a) j k = Some st'" using r by simp
    from Suc.IH [OF p5 kj this] have s4: "same_in c st R ?h3 (heap st')" by simp
    show ?thesis
      using s1 s2 s3 s4 by (blast intro: same_in_trans)
  qed
qed

lemma coalesce_same:
  assumes p: "pinv c st fl R {(a, k)}" and h: "hdr_is st BLOCK_AVAIL (a, k)"
    and r: "coalesce c st (addr st a) k = Some (st', w, k')"
  shows "same_in c st R (heap st) (heap st')"
  using p h r
proof (induction "kval_m st - k" arbitrary: st fl a k)
  case 0
  then have nk: "\<not> k < kval_m st" by simp
  then have "coalesce c st (addr st a) k = Some (st, addr st a, k)"
    by (subst coalesce.simps) simp
  then show ?case using 0(4) by (simp add: same_in_refl)
next
  case (Suc n)
  note p = \<open>pinv c st fl R {(a, k)}\<close> and h = \<open>hdr_is st BLOCK_AVAIL (a, k)\<close>
  note r = \<open>coalesce c st (addr st a) k = Some (st', w, k')\<close>
  have k: "k < kval_m st" using Suc(2) by simp
  have ok: "pool_ok c st" using p by (rule pinv_pool_ok)
  have k64: "k < 64" using k pool_ok_lt64 [OF ok] by simp
  let ?b = "a XOR 2 ^ k"
  let ?bh = "heap st (Addr (addr st ?b))"
  have ain: "(a, k) \<in> free_blks fl \<union> R \<union> {(a, k)}" by simp
  have va: "valid c st (Addr (addr st a))" using pinv_valid [OF p ain] by simp
  have bc: "buddy_calc c st (addr st a) = Some (addr st ?b)"
    using va _ k64 by (rule buddy_calc_valid) (use h in \<open>simp add: hdr_is_def\<close>)
  have vb: "valid c st (Addr (addr st ?b))" using buddy_is_free(1) [OF p k] .
  have bl: "?b < 2 ^ kval_m st" using buddy_is_free(2) [OF p k] .
  have rb: "rd c st (Addr (addr st ?b)) = Some ?bh" using vb by (rule rd_valid)
  show ?case
  proof (cases "tag ?bh \<noteq> BLOCK_AVAIL \<or> kval ?bh \<noteq> k")
    case True
    have "coalesce c st (addr st a) k = Some (st, addr st a, k)"
      using k bc rb True by (subst coalesce.simps) auto
    then show ?thesis using r by (simp add: same_in_refl)
  next
    case False
    then have bin: "?b \<in> set (fl k)" using buddy_is_free(3) [OF p k] by simp
    let ?st1 = "st\<lparr>heap := unlink_h (heap st) (Addr (addr st ?b))\<rparr>"
    let ?fl1 = "fl(k := remove1 ?b (fl k))"
    have u: "unlink c st (Addr (addr st ?b)) = Some ?st1"
      and p1: "pinv c ?st1 ?fl1 R {(?b, k), (a, k)}"
      using pinv_unlink [OF p bin] by simp_all
    have s1: "same_in c st R (heap st) (unlink_h (heap st) (Addr (addr st ?b)))"
      using p bin by (rule unlink_same)
    define l where "l = min a ?b"
    have w: "2 ^ k dvd a" "a + 2 ^ k \<le> 2 ^ kval_m st"
      using pinv_wf [OF p ain] by (simp_all add: wf_blk_def)
    from w k obtain l' where l': "2 ^ Suc k dvd l'"
      "(a = l' \<and> ?b = l' + 2 ^ k) \<or> (a = l' + 2 ^ k \<and> ?b = l')"
      by (rule buddy_parent)
    have ll: "l = l'" using l'(2) by (auto simp: l_def)
    have al: "2 ^ Suc k dvd l" using l'(1) ll by simp
    have pair: "{(?b, k), (a, k)} = {(l, k), (l + 2 ^ k, k)}" using l'(2) ll by auto
    have alt: "a < 2 ^ kval_m st" using pinv_lt(1) [OF p ain] by simp
    have cmp: "(addr st a > addr st ?b) = (a > ?b)"
      using addr_less [OF ok bl alt] by simp
    have blk: "(if addr st a > addr st ?b then addr st ?b else addr st a) = addr st l"
      by (auto simp: cmp l_def min_def)
    have p1': "pinv c ?st1 ?fl1 R {(l, k), (l + 2 ^ k, k)}" using p1 by (simp only: pair)
    have "pinv c ?st1 ?fl1 R (insert (l, Suc k) ({(l, k), (l + 2 ^ k, k)} - {(l, k), (l + 2 ^ k, k)}))"
      using p1' _ _ al by (rule pinv_merge) (use k in simp_all)
    then have p2: "pinv c ?st1 ?fl1 R {(l, Suc k)}" by simp
    let ?x = "Addr (addr st l)"
    let ?h1 = "unlink_h (heap st) (Addr (addr st ?b))"
    let ?h2 = "?h1(?x := (?h1 ?x)\<lparr>kval := Suc k\<rparr>)"
    let ?st2 = "st\<lparr>heap := ?h2\<rparr>"
    have w2: "wr c ?st1 ?x (\<lambda>h. h\<lparr>kval := Suc k\<rparr>) = Some ?st2"
      and p3: "pinv c ?st2 ?fl1 R {(l, Suc k)}"
      using pinv_wr_detached [OF p2, of "(l, Suc k)" "\<lambda>h. h\<lparr>kval := Suc k\<rparr>"] by simp_all
    have s2: "same_in c st R ?h1 ?h2" using wr_same [OF p2, of "(l, Suc k)"] by simp
    have "tag (heap st ?x) = BLOCK_AVAIL"
      using h False by (auto simp: l_def min_def hdr_is_def)
    then have h2: "hdr_is ?st2 BLOCK_AVAIL (l, Suc k)" by (simp add: unlink_h_tag)
    have n: "n = kval_m ?st2 - Suc k" using Suc(2) by simp
    have "coalesce c st (addr st a) k = coalesce c ?st2 (addr st l) (Suc k)"
      using k bc rb False u w2 by (subst coalesce.simps) (simp add: blk Let_def)
    then have "coalesce c ?st2 (addr ?st2 l) (Suc k) = Some (st', w, k')" using r by simp
    from Suc(1) [OF n p3 h2 this] have s3: "same_in c st R ?h2 (heap st')" by simp
    show ?thesis using s1 s2 s3 by (blast intro: same_in_trans)
  qed
qed

lemma malloc_same:
  assumes p: "pool_inv c st fl R" and m: "buddy_malloc c Pool st sz = Some (q, st')"
  shows "same_in c st R (heap st) (heap st')"
proof (cases "sz = 0")
  case True
  then show ?thesis using m by (simp add: buddy_malloc_def same_in_refl)
next
  case False
  note sz = False
  show ?thesis
  proof (cases "\<exists>i. btok c sz \<le> i \<and> i \<le> kval_m st \<and> fl i \<noteq> []")
    case False
    then have "\<forall>j. btok c sz \<le> j \<and> j \<le> kval_m st \<longrightarrow> fl j = []" by blast
    from malloc_exhausted [OF p sz this] m show ?thesis by (auto simp: same_in_refl)
  next
    case True
    then obtain i where ki: "btok c sz \<le> i" "i \<le> kval_m st" and ne: "fl i \<noteq> []"
      and em: "\<forall>j. btok c sz \<le> j \<and> j < i \<longrightarrow> fl j = []"
      by (rule least_free_list)
    define k where "k = btok c sz"
    define a where "a = hd (fl i)"
    have p': "pinv c st fl R {}" using p by (simp add: pool_inv_def)
    have ok: "pool_ok c st" using p' by (rule pinv_pool_ok)
    then have cok: "cfg_ok c" by (simp add: pool_ok_def)
    have sk: "SMALLEST_K c \<le> k" using btok_range [OF cok sz] by (simp add: k_def)
    have iM: "i < MAX_K c" using ki(2) ok by (simp add: pool_ok_def)
    have ain: "a \<in> set (fl i)" using ne by (simp add: a_def)
    from find_avail_spec [OF p', of k] obtain i' where
      i': "find_avail c st k = Some i'" "k \<le> i'" "\<forall>j. k \<le> j \<and> j < i' \<longrightarrow> fl j = []"
      "if i' \<le> kval_m st then fl i' \<noteq> [] else \<forall>j. k \<le> j \<and> j \<le> kval_m st \<longrightarrow> fl j = []"
      by blast
    have "\<not> i < i'" using i'(3) ki(1) ne by (auto simp: k_def)
    moreover have "\<not> i' < i"
    proof
      assume "i' < i"
      then have "fl i' = []" "i' \<le> kval_m st" using em i'(2) ki(2) by (auto simp: k_def)
      then show False using i'(4) by simp
    qed
    ultimately have fi: "find_avail c st k = Some i" using i'(1) by simp
    have r: "rd c st (Sent i) = Some (heap st (Sent i))" using valid_sent [OF iM] by (rule rd_valid)
    have nx: "next (heap st (Sent i)) = Addr (addr st a)"
      using pinv_head [OF p' iM] ne by (cases "fl i") (simp_all add: a_def)
    let ?h1 = "unlink_h (heap st) (Addr (addr st a))"
    let ?st1 = "st\<lparr>heap := ?h1\<rparr>"
    let ?fl1 = "fl(i := remove1 a (fl i))"
    have u: "unlink c st (Addr (addr st a)) = Some ?st1" and p1: "pinv c ?st1 ?fl1 R {(a, i)}"
      using pinv_unlink [OF p' ain] by simp_all
    have s1: "same_in c st R (heap st) ?h1" using p' ain by (rule unlink_same)
    define fl2 where "fl2 = split_lists ?fl1 a i k"
    from split_loop_spec [OF p1 _ sk] ki(1) obtain h2 where
      sp: "split_loop c ?st1 (addr ?st1 a) i k = Some (?st1\<lparr>heap := h2\<rparr>)"
      and p2: "pinv c (?st1\<lparr>heap := h2\<rparr>) fl2 R {(a, k)}"
      unfolding fl2_def by (auto simp: k_def)
    have "same_in c ?st1 R (heap ?st1) (heap (?st1\<lparr>heap := h2\<rparr>))"
      using p1 _ sk sp by (rule split_loop_same) (use ki(1) in \<open>simp add: k_def\<close>)
    then have s2: "same_in c st R ?h1 h2" by simp
    let ?st2 = "st\<lparr>heap := h2\<rparr>"
    have sp': "split_loop c ?st1 (addr st a) i k = Some ?st2" using sp by simp
    have p2': "pinv c ?st2 fl2 R {(a, k)}" using p2 by simp
    let ?x = "Addr (addr st a)"
    let ?h3 = "h2(?x := (h2 ?x)\<lparr>tag := BLOCK_RESERVED\<rparr>)"
    let ?st3 = "st\<lparr>heap := ?h3\<rparr>"
    have w3: "wr c ?st2 ?x (\<lambda>h. h\<lparr>tag := BLOCK_RESERVED\<rparr>) = Some ?st3"
      and p3: "pinv c ?st3 fl2 R {(a, k)}"
      using pinv_wr_detached [OF p2', of "(a, k)" "\<lambda>h. h\<lparr>tag := BLOCK_RESERVED\<rparr>"] by simp_all
    have s3: "same_in c st R h2 ?h3" using wr_same [OF p2', of "(a, k)"] by simp
    let ?h4 = "?h3(?x := (?h3 ?x)\<lparr>kval := k\<rparr>)"
    let ?st4 = "st\<lparr>heap := ?h4\<rparr>"
    have w4: "wr c ?st3 ?x (\<lambda>h. h\<lparr>kval := k\<rparr>) = Some ?st4"
      using pinv_wr_detached [OF p3, of "(a, k)" "\<lambda>h. h\<lparr>kval := k\<rparr>"] by simp_all
    have s4: "same_in c st R ?h3 ?h4" using wr_same [OF p3, of "(a, k)"] by simp
    have "buddy_malloc c Pool st sz = Some (addr st a + of_nat (hdr c), ?st4)"
      using sz ki fi r nx u sp' w3 w4
      by (simp add: buddy_malloc_def Let_def k_def [symmetric])
    then have "heap st' = ?h4" using m by simp
    moreover have "same_in c st R (heap st) ?h4"
      using s1 s2 s3 s4 by (blast intro: same_in_trans)
    ultimately show ?thesis by simp
  qed
qed

lemma free_same:
  assumes p: "pool_inv c st fl R" and b: "(a, k) \<in> R"
    and f: "buddy_free c Pool st (addr st a + of_nat (hdr c)) = Some st'"
  shows "same_in c st (R - {(a, k)}) (heap st) (heap st')"
proof -
  have p': "pinv c st fl R {}" using p by (simp add: pool_inv_def)
  have bin: "(a, k) \<in> free_blks fl \<union> R \<union> {}" using b by simp
  note ptr = payload_ptr [OF p' bin]
  let ?x = "Addr (addr st a)"
  have va: "valid c st ?x" using pinv_valid [OF p' bin] by simp
  have r: "rd c st ?x = Some (heap st ?x)" using va by (rule rd_valid)
  have hk: "kval (heap st ?x) = k" using p' b by (auto simp: pinv_def hdr_is_def)
  have p0: "pinv c st fl (R - {(a, k)}) {(a, k)}" using pinv_release [OF p' b] by simp
  let ?h1 = "(heap st)(?x := (heap st ?x)\<lparr>tag := BLOCK_AVAIL\<rparr>)"
  let ?st1 = "st\<lparr>heap := ?h1\<rparr>"
  have w1: "wr c st ?x (\<lambda>h. h\<lparr>tag := BLOCK_AVAIL\<rparr>) = Some ?st1"
    and p1: "pinv c ?st1 fl (R - {(a, k)}) {(a, k)}"
    using pinv_wr_detached [OF p0, of "(a, k)" "\<lambda>h. h\<lparr>tag := BLOCK_AVAIL\<rparr>"] by simp_all
  have s1: "same_in c st (R - {(a, k)}) (heap st) ?h1" using wr_same [OF p0, of "(a, k)"] by simp
  have h1: "hdr_is ?st1 BLOCK_AVAIL (a, k)" using hk by simp
  from coalesce_spec [OF p1 h1] obtain h2 fl2 a' k' where
    co: "coalesce c ?st1 (addr ?st1 a) k = Some (?st1\<lparr>heap := h2\<rparr>, addr ?st1 a', k')"
    and p2: "pinv c (?st1\<lparr>heap := h2\<rparr>) fl2 (R - {(a, k)}) {(a', k')}"
    and h2: "hdr_is (?st1\<lparr>heap := h2\<rparr>) BLOCK_AVAIL (a', k')"
    by blast
  have "same_in c ?st1 (R - {(a, k)}) (heap ?st1) (heap (?st1\<lparr>heap := h2\<rparr>))"
    using p1 h1 co by (rule coalesce_same)
  then have s2: "same_in c st (R - {(a, k)}) ?h1 h2" by simp
  let ?st2 = "st\<lparr>heap := h2\<rparr>"
  have co': "coalesce c ?st1 (addr st a) k = Some (?st2, addr st a', k')" using co by simp
  have p2': "pinv c ?st2 fl2 (R - {(a, k)}) {(a', k')}" using p2 by simp
  have h2': "hdr_is ?st2 BLOCK_AVAIL (a', k')" using h2 by simp
  let ?h3 = "push_h h2 (Sent k') (Addr (addr st a'))"
  let ?st3 = "st\<lparr>heap := ?h3\<rparr>"
  have pf: "push_front c ?st2 k' (Addr (addr st a')) = Some ?st3"
    using pinv_push [OF p2' _ h2'] by simp_all
  have s3: "same_in c st (R - {(a, k)}) h2 ?h3" using push_same [OF p2', of a' k'] by simp
  have "buddy_free c Pool st (addr st a + of_nat (hdr c)) = Some ?st3"
    using ptr r hk w1 co' pf by (simp add: buddy_free_def Let_def)
  then have "heap st' = ?h3" using f by simp
  moreover have "same_in c st (R - {(a, k)}) (heap st) ?h3"
    using s1 s2 s3 by (blast intro: same_in_trans)
  ultimately show ?thesis by simp
qed

section \<open>The claims about the order calculator\<close>

text \<open>
  Claim C3. When \<open>s + sizeof(struct avail)\<close> is exactly \<open>2 ^ k\<close>, for an order \<open>k\<close> from the
  smallest order up to the largest order \<open>MAX_K - 1\<close>, \<open>btok s\<close> is \<open>k\<close> and not \<open>k + 1\<close>.
\<close>

theorem btok_exact_at_power_of_two:
  assumes ok: "cfg_ok c" and lo: "SMALLEST_K c \<le> k" and hi: "k < MAX_K c"
    and eq: "unat s + hdr c = 2 ^ k"
  shows "btok c s = k"
proof -
  define b :: "64 word" where "b = s + of_nat (hdr c)"
  define r where "r = btok_loop (b - 1) 0 + 1"
  have M: "0 < hdr c" "hdr c < 2 ^ SMALLEST_K c" "MAX_K c \<le> 64" "1 \<le> SMALLEST_K c"
    using ok cfg_ok_SMALLEST_pos [OF ok] by (simp_all add: cfg_ok_def)
  have "(2::nat) ^ k < 2 ^ 64"
    using hi M(3) by (intro power_strict_increasing) simp_all
  then have nw: "unat s + hdr c < 2 ^ 64" using eq by simp
  have ub: "unat b = 2 ^ k" unfolding b_def using unat_plus_hdr [OF nw] eq by simp
  then have bnz: "b \<noteq> 0" by (auto simp: unat_eq_0 [symmetric])
  have "(2::nat) ^ SMALLEST_K c \<le> 2 ^ k" using lo by (simp add: power_increasing)
  with M(2) have "hdr c < 2 ^ k" by (rule less_le_trans)
  then have "hdr c < unat s + hdr c" using eq by simp
  then have nz: "s \<noteq> 0" by (auto simp: unat_eq_0 [symmetric])
  have "r \<le> k"
    unfolding r_def using M(4) lo by (intro btok_raw_upper [OF bnz]) (simp_all add: ub)
  moreover have "(2::nat) ^ k \<le> 2 ^ r"
    using btok_raw_ge [OF bnz] by (simp add: ub r_def)
  then have "k \<le> r" by (rule pow2_le_D)
  ultimately have rk: "r = k" by simp
  have "btok c s =
      (let k = (if r < SMALLEST_K c then SMALLEST_K c else r)
       in if k \<ge> MAX_K c then MAX_K c - 1 else k)"
    using nz by (simp add: btok_def Let_def b_def r_def)
  then show ?thesis using lo hi by (simp add: rk Let_def)
qed

theorem btok_exact_at_power_of_two_witness:
  "cfg_ok cfg0 \<and> SMALLEST_K cfg0 \<le> 7 \<and> 7 < MAX_K cfg0 \<and>
   unat (104 :: 64 word) + hdr cfg0 = 2 ^ 7 \<and> btok cfg0 104 = 7"
  using btok_exact_at_power_of_two [of cfg0 7 104]
  by (simp add: cfg_ok_def cfg0_def)

text \<open>
  Claim C8 says that \<open>btok\<close> maps every size, 0 included, into the range from \<open>SMALLEST_K\<close>
  to \<open>MAX_K - 1\<close>. The source returns order 0 for size 0 before any clamping.
\<close>

theorem btok_zero_counterexample: "\<not> SMALLEST_K cfg0 \<le> btok cfg0 0"
  by (simp add: btok_def cfg0_def)

text \<open>
  Claim C8, amended. For every size other than 0 the result of \<open>btok\<close> lies between
  \<open>SMALLEST_K\<close> and \<open>MAX_K - 1\<close>; for size 0 the result is 0.
\<close>

theorem btok_clamped:
  assumes ok: "cfg_ok c"
  shows "(s \<noteq> 0 \<longrightarrow> SMALLEST_K c \<le> btok c s \<and> btok c s \<le> MAX_K c - 1) \<and> btok c 0 = 0"
  using btok_range [OF ok, of s] by (simp add: btok_def)

theorem btok_clamped_witness:
  "cfg_ok cfg0 \<and> (100 :: 64 word) \<noteq> 0 \<and> SMALLEST_K cfg0 \<le> btok cfg0 100 \<and>
   btok cfg0 100 \<le> MAX_K cfg0 - 1 \<and> btok cfg0 0 = 0"
  using btok_clamped [of cfg0 100]
  by (simp add: cfg_ok_def cfg0_def)

section \<open>Null arguments and tear-down\<close>

text \<open>
  Claim C9. With a null pool \<open>buddy_malloc\<close> returns the null pointer, and with a null pool
  or a null pointer \<open>buddy_free\<close> returns at once; the state stays as it was.
\<close>

theorem null_arguments:
  "buddy_malloc c NULL_pool st sz = Some (0, st) \<and>
   buddy_free c NULL_pool st ptr = Some st \<and>
   buddy_free c pool st 0 = Some st"
  by (simp add: buddy_malloc_def buddy_free_def)

lemma buddy_init_failed:
  assumes "buddy_init c Pool st sz MAP_FAILED = Some st'"
  shows "base st' = 0"
  using assms
  by (auto simp: buddy_init_def Let_def split: Option.bind_splits if_splits)

text \<open>
  Claim C10. \<open>buddy_destroy\<close> on a live arena unmaps it and sets \<open>base\<close> to null; on an arena
  whose \<open>base\<close> is null already (after a first \<open>buddy_destroy\<close>, after a failed reservation in
  \<open>buddy_init\<close>, or never set up) it does nothing.
\<close>

theorem destroy_idempotent:
  "buddy_destroy pool (buddy_destroy pool st) = buddy_destroy pool st \<and>
   (base st = 0 \<longrightarrow> buddy_destroy pool st = st) \<and>
   (base st \<noteq> 0 \<longrightarrow>
      base (buddy_destroy Pool st) = 0 \<and>
      oscalls (buddy_destroy Pool st) = oscalls st @ [Munmap (base st) (numbytes st)]) \<and>
   (buddy_init c Pool st sz MAP_FAILED = Some st' \<longrightarrow> buddy_destroy pool st' = st')"
  using buddy_init_failed [of c st sz st']
  by (auto simp: buddy_destroy_def)

theorem destroy_idempotent_witness:
  "base m0 = 0 \<and> buddy_destroy Pool m0 = m0 \<and>
   base (m0\<lparr>base := 4096, numbytes := 1048576\<rparr>) \<noteq> 0 \<and>
   base (buddy_destroy Pool (m0\<lparr>base := 4096, numbytes := 1048576\<rparr>)) = 0 \<and>
   oscalls (buddy_destroy Pool (m0\<lparr>base := 4096, numbytes := 1048576\<rparr>)) = [Munmap 4096 1048576] \<and>
   buddy_init cfg0 Pool m0 1 MAP_FAILED = Some (m0\<lparr>kval_m := 20, numbytes := 1048576, oscalls := [Mmap 1048576, Perror]\<rparr>) \<and>
   buddy_destroy Pool (m0\<lparr>kval_m := 20, numbytes := 1048576, oscalls := [Mmap 1048576, Perror]\<rparr>) =
     m0\<lparr>kval_m := 20, numbytes := 1048576, oscalls := [Mmap 1048576, Perror]\<rparr>"
proof -
  have b: "btok cfg0 1 = 6" by code_simp
  have i: "buddy_init cfg0 Pool m0 1 MAP_FAILED = Some (m0\<lparr>kval_m := 20, numbytes := 1048576, oscalls := [Mmap 1048576, Perror]\<rparr>)"
    by (simp add: buddy_init_def b shl1_def Let_def cfg0_fields m0_def)
  show ?thesis
    using destroy_idempotent [of Pool m0 cfg0 1 "m0\<lparr>kval_m := 20, numbytes := 1048576, oscalls := [Mmap 1048576, Perror]\<rparr>"]
      destroy_idempotent [of Pool "m0\<lparr>base := 4096, numbytes := 1048576\<rparr>" cfg0 1 "m0"]
    by (simp add: i) (simp add: m0_def)
qed

section \<open>The claims about allocation\<close>

text \<open>
  Claim C1 says that \<open>buddy_malloc\<close> returns a block for every size from 1 up to the capacity
  of the arena. On a fresh arena of \<open>2 ^ 20\<close> bytes a request for \<open>2 ^ 20\<close> bytes is refused:
  with its header it needs order 21.
\<close>

theorem malloc_capacity_counterexample:
  "buddy_init cfg0 Pool m0 1 (Mapped 0x10000000) = Some m1 \<and>
   (0 :: 64 word) < 2 ^ 20 \<and> (2 ^ 20 :: 64 word) \<le> numbytes m1 \<and>
   buddy_malloc cfg0 Pool m1 (2 ^ 20) = Some (0, m1\<lparr>errno := ENOMEM\<rparr>)"
proof -
  have "buddy_malloc cfg0 Pool m1 (2 ^ 20) = Some (0, m1\<lparr>errno := ENOMEM\<rparr>)"
    by (rule malloc_too_big) (simp_all add: btok_cfg0_values m1_fields)
  then show ?thesis using m1_init by (simp add: m1_fields)
qed

text \<open>
  Claim C1, amended. In a well-formed arena, for a request \<open>sz > 0\<close> that fits the arena
  together with its header, \<open>buddy_malloc\<close> always returns. If some free list of an order from
  \<open>btok sz\<close> to the top order is not empty, the result is a non-null pointer just behind the
  header of a block of order \<open>k = btok sz\<close>: the block has room for the header and \<open>sz\<close> bytes,
  starts at a multiple of \<open>2 ^ k\<close> from \<open>base\<close>, lies in the arena, is marked reserved with
  order \<open>k\<close>, does not overlap any block handed out before, and the arena stays well-formed with
  the block added to the blocks handed out. Otherwise the result is null, with \<open>errno\<close> set to
  \<open>ENOMEM\<close> and nothing else changed.
\<close>

theorem malloc_block:
  assumes inv: "pool_inv c st fl R" and sz: "sz \<noteq> 0" and fit: "unat sz + hdr c \<le> 2 ^ kval_m st"
  shows "\<exists>p st'. buddy_malloc c Pool st sz = Some (p, st') \<and>
           (if \<exists>i. btok c sz \<le> i \<and> i \<le> kval_m st \<and> fl i \<noteq> []
            then \<exists>a fl'. p = addr st a + of_nat (hdr c) \<and> p \<noteq> 0 \<and>
                   unat sz + hdr c \<le> 2 ^ btok c sz \<and>
                   2 ^ btok c sz dvd a \<and> a + 2 ^ btok c sz \<le> 2 ^ kval_m st \<and>
                   hdr_is st' BLOCK_RESERVED (a, btok c sz) \<and>
                   (a, btok c sz) \<notin> R \<and> (\<forall>b\<in>R. disj (a, btok c sz) b) \<and>
                   pool_inv c st' fl' (insert (a, btok c sz) R)
            else p = 0 \<and> st' = st\<lparr>errno := ENOMEM\<rparr>)"
proof (cases "\<exists>i. btok c sz \<le> i \<and> i \<le> kval_m st \<and> fl i \<noteq> []")
  case True
  then obtain i where i: "btok c sz \<le> i" "i \<le> kval_m st" "fl i \<noteq> []"
    "\<forall>j. btok c sz \<le> j \<and> j < i \<longrightarrow> fl j = []"
    by (rule least_free_list)
  define k where "k = btok c sz"
  from malloc_ok [OF inv sz i] obtain h' fl' a where
    m: "buddy_malloc c Pool st sz = Some (addr st a + of_nat (hdr c), st\<lparr>heap := h'\<rparr>)"
    and p: "pool_inv c (st\<lparr>heap := h'\<rparr>) fl' (insert (a, k) R)"
    and n: "(a, k) \<notin> R"
    unfolding k_def by blast
  have cok: "cfg_ok c" using inv by (simp add: pool_inv_def pinv_def pool_ok_def)
  have f: "unat sz + hdr c \<le> 2 ^ k"
    unfolding k_def using cok sz fit_no_clamp [OF inv fit] by (rule btok_fits)
  have "(a, k) \<in> insert (a, k) R" by simp
  note b = pool_inv_block [OF p this]
  have d: "\<forall>b\<in>R. disj (a, k) b" using b(4) n by auto
  have b5: "addr st a + of_nat (hdr c) \<noteq> 0" using b(5) by simp
  have b12: "2 ^ k dvd a" "a + 2 ^ k \<le> 2 ^ kval_m st" using b(1,2) by simp_all
  have "addr st a + of_nat (hdr c) = addr st a + of_nat (hdr c) \<and>
       addr st a + of_nat (hdr c) \<noteq> 0 \<and> unat sz + hdr c \<le> 2 ^ k \<and>
       2 ^ k dvd a \<and> a + 2 ^ k \<le> 2 ^ kval_m st \<and>
       hdr_is (st\<lparr>heap := h'\<rparr>) BLOCK_RESERVED (a, k) \<and>
       (a, k) \<notin> R \<and> (\<forall>b\<in>R. disj (a, k) b) \<and>
       pool_inv c (st\<lparr>heap := h'\<rparr>) fl' (insert (a, k) R)"
    by (intro conjI refl b(3) b5 b12 f n d p)
  then have "\<exists>a' fl'. addr st a + of_nat (hdr c) = addr st a' + of_nat (hdr c) \<and>
       addr st a + of_nat (hdr c) \<noteq> 0 \<and> unat sz + hdr c \<le> 2 ^ k \<and>
       2 ^ k dvd a' \<and> a' + 2 ^ k \<le> 2 ^ kval_m st \<and>
       hdr_is (st\<lparr>heap := h'\<rparr>) BLOCK_RESERVED (a', k) \<and>
       (a', k) \<notin> R \<and> (\<forall>b\<in>R. disj (a', k) b) \<and>
       pool_inv c (st\<lparr>heap := h'\<rparr>) fl' (insert (a', k) R)"
    by (intro exI)
  then show ?thesis using True m unfolding k_def by (simp del: hdr_is_heap_upd)
next
  case False
  then have "\<forall>j. btok c sz \<le> j \<and> j \<le> kval_m st \<longrightarrow> fl j = []" by blast
  from malloc_exhausted [OF inv sz this] show ?thesis using False by simp
qed

theorem malloc_block_witness:
  "pool_inv cfg0 m1 (fresh 20) {} \<and> (100 :: 64 word) \<noteq> 0 \<and>
   unat (100 :: 64 word) + hdr cfg0 \<le> 2 ^ kval_m m1 \<and>
   (\<exists>p st'. buddy_malloc cfg0 Pool m1 100 = Some (p, st') \<and>
      (\<exists>a fl'. p = addr m1 a + of_nat (hdr cfg0) \<and> p \<noteq> 0 \<and>
         unat (100 :: 64 word) + hdr cfg0 \<le> 2 ^ btok cfg0 100 \<and>
         2 ^ btok cfg0 100 dvd a \<and> a + 2 ^ btok cfg0 100 \<le> 2 ^ kval_m m1 \<and>
         hdr_is st' BLOCK_RESERVED (a, btok cfg0 100) \<and>
         pool_inv cfg0 st' fl' {(a, btok cfg0 100)}))"
proof -
  have f: "unat (100 :: 64 word) + hdr cfg0 \<le> 2 ^ kval_m m1"
    by (simp add: cfg0_fields m1_fields)
  have "btok cfg0 100 \<le> 20 \<and> 20 \<le> kval_m m1 \<and> fresh 20 20 \<noteq> []"
    by (simp add: btok_cfg0_values m1_fields fresh_def)
  then have ex: "\<exists>i. btok cfg0 100 \<le> i \<and> i \<le> kval_m m1 \<and> fresh 20 i \<noteq> []" by (rule exI)
  from malloc_block [OF m1_inv _ f] ex
  have "\<exists>p st'. buddy_malloc cfg0 Pool m1 100 = Some (p, st') \<and>
      (\<exists>a fl'. p = addr m1 a + of_nat (hdr cfg0) \<and> p \<noteq> 0 \<and>
         unat (100 :: 64 word) + hdr cfg0 \<le> 2 ^ btok cfg0 100 \<and>
         2 ^ btok cfg0 100 dvd a \<and> a + 2 ^ btok cfg0 100 \<le> 2 ^ kval_m m1 \<and>
         hdr_is st' BLOCK_RESERVED (a, btok cfg0 100) \<and>
         pool_inv cfg0 st' fl' {(a, btok cfg0 100)})"
    by simp
  then show ?thesis using m1_inv f by simp
qed

section \<open>Allocate, free, allocate again\<close>

text \<open>
  Claim C7. When \<open>buddy_malloc\<close> hands out a block for size \<open>sz\<close> in a well-formed arena,
  freeing that block at once succeeds and leaves a well-formed arena with the same blocks handed
  out and the same number of free bytes as before the allocation, whichever way the free lists
  of the new state are listed; a second \<open>buddy_malloc\<close> for \<open>sz\<close> then succeeds, and its block
  has the order of the first one, \<open>btok sz\<close>.
\<close>

theorem round_trip:
  assumes inv: "pool_inv c st fl R" and m: "buddy_malloc c Pool st sz = Some (p, st1)"
    and p: "p \<noteq> 0"
  shows "\<exists>st2 fl2 q st3.
           buddy_free c Pool st1 p = Some st2 \<and> pool_inv c st2 fl2 R \<and>
           free_bytes c fl2 = free_bytes c fl \<and>
           (\<forall>fl' R'. pool_inv c st2 fl' R' \<longrightarrow> free_bytes c fl' = free_bytes c fl) \<and>
           buddy_malloc c Pool st2 sz = Some (q, st3) \<and> q \<noteq> 0 \<and>
           kval (heap st1 (Addr (p - of_nat (hdr c)))) = btok c sz \<and>
           kval (heap st3 (Addr (q - of_nat (hdr c)))) = btok c sz"
proof -
  define k where "k = btok c sz"
  from inv m p obtain a h1 fl1 where
    sz: "sz \<noteq> 0" and pa: "p = addr st a + of_nat (hdr c)" and s1: "st1 = st\<lparr>heap := h1\<rparr>"
    and p1: "pool_inv c st1 fl1 (insert (a, k) R)" and n: "(a, k) \<notin> R"
    and fb1: "free_bytes c fl1 + 2 ^ k = free_bytes c fl"
    unfolding k_def by (rule malloc_success)
  have ain: "(a, k) \<in> insert (a, k) R" by simp
  have a1: "addr st1 a = addr st a" by (simp add: s1)
  have k1: "kval (heap st1 (Addr (p - of_nat (hdr c)))) = k"
    using pool_inv_block(3) [OF p1 ain] by (simp add: hdr_is_def pa a1)
  \<comment> \<open>the block is given back\<close>
  define fl2 where "fl2 = spec_free (kval_m st1) fl1 a k"
  from free_ok [OF p1 ain] obtain h2 k' where
    f: "buddy_free c Pool st1 (addr st1 a + of_nat (hdr c)) = Some (st1\<lparr>heap := h2\<rparr>)"
    and p2: "pool_inv c (st1\<lparr>heap := h2\<rparr>) fl2 (insert (a, k) R - {(a, k)})"
    and fb2: "free_bytes c fl2 = free_bytes c fl1 + 2 ^ k"
    and k': "k \<le> k'" "k' \<le> kval_m st1" "fl2 k' \<noteq> []"
    unfolding fl2_def by blast
  define st2 where "st2 = st1\<lparr>heap := h2\<rparr>"
  have "insert (a, k) R - {(a, k)} = R" using n by auto
  then have p2': "pool_inv c st2 fl2 R" using p2 by (simp add: st2_def)
  have f': "buddy_free c Pool st1 p = Some st2" using f by (simp add: pa a1 st2_def)
  have fb: "free_bytes c fl2 = free_bytes c fl" using fb1 fb2 by simp
  \<comment> \<open>and asked for again\<close>
  have "k \<le> k' \<and> k' \<le> kval_m st2 \<and> fl2 k' \<noteq> []" using k' by (simp add: st2_def)
  then have "\<exists>i. btok c sz \<le> i \<and> i \<le> kval_m st2 \<and> fl2 i \<noteq> []"
    unfolding k_def by (rule exI)
  then obtain i where i: "btok c sz \<le> i" "i \<le> kval_m st2" "fl2 i \<noteq> []"
    "\<forall>j. btok c sz \<le> j \<and> j < i \<longrightarrow> fl2 j = []"
    by (rule least_free_list)
  define a2 where "a2 = hd (fl2 i)"
  from malloc_ok [OF p2' sz i] obtain h3 fl3 where
    m2: "buddy_malloc c Pool st2 sz = Some (addr st2 a2 + of_nat (hdr c), st2\<lparr>heap := h3\<rparr>)"
    and p3: "pool_inv c (st2\<lparr>heap := h3\<rparr>) fl3 (insert (a2, k) R)"
    unfolding k_def a2_def by blast
  have a2in: "(a2, k) \<in> insert (a2, k) R" by simp
  have q0: "addr st2 a2 + of_nat (hdr c) \<noteq> 0"
    using pool_inv_block(5) [OF p3 a2in] by simp
  have k3: "kval (heap (st2\<lparr>heap := h3\<rparr>) (Addr (addr st2 a2 + of_nat (hdr c) - of_nat (hdr c)))) = k"
    using pool_inv_block(3) [OF p3 a2in] by (simp add: hdr_is_def)
  have un: "\<forall>fl' R'. pool_inv c st2 fl' R' \<longrightarrow> free_bytes c fl' = free_bytes c fl"
    using free_lists_unique [OF p2'] fb by simp
  show ?thesis
    using f' p2' fb un m2 q0 k1 k3 unfolding k_def by blast
qed

theorem round_trip_witness:
  "pool_inv cfg0 m1 (fresh 20) {} \<and>
   buddy_malloc cfg0 Pool m1 100 = Some (0x10000018, m2) \<and> (0x10000018 :: 64 word) \<noteq> 0 \<and>
   (\<exists>st2 fl2 q st3.
      buddy_free cfg0 Pool m2 0x10000018 = Some st2 \<and> pool_inv cfg0 st2 fl2 {} \<and>
      free_bytes cfg0 fl2 = free_bytes cfg0 (fresh 20) \<and>
      buddy_malloc cfg0 Pool st2 100 = Some (q, st3) \<and> q \<noteq> 0 \<and>
      kval (heap m2 (Addr (0x10000018 - of_nat (hdr cfg0)))) = btok cfg0 100 \<and>
      kval (heap st3 (Addr (q - of_nat (hdr cfg0)))) = btok cfg0 100)"
proof -
  have n: "(0x10000018 :: 64 word) \<noteq> 0" by simp
  from round_trip [OF m1_inv m2_malloc(1) n]
  have "\<exists>st2 fl2 q st3.
      buddy_free cfg0 Pool m2 0x10000018 = Some st2 \<and> pool_inv cfg0 st2 fl2 {} \<and>
      free_bytes cfg0 fl2 = free_bytes cfg0 (fresh 20) \<and>
      buddy_malloc cfg0 Pool st2 100 = Some (q, st3) \<and> q \<noteq> 0 \<and>
      kval (heap m2 (Addr (0x10000018 - of_nat (hdr cfg0)))) = btok cfg0 100 \<and>
      kval (heap st3 (Addr (q - of_nat (hdr cfg0)))) = btok cfg0 100"
    by blast
  with m1_inv m2_malloc(1) n show ?thesis by (intro conjI)
qed

section \<open>Release\<close>

text \<open>
  Claim C2. Freeing a block handed out with order \<open>k\<close> in a well-formed arena succeeds, and
  the free lists afterwards are those that the coalescing loop of the specification computes
  (\<open>spec_free\<close>): the buddy is found by flipping bit \<open>k\<close> of the offset; the loop goes on
  exactly while \<open>k\<close> is below the top order and the buddy is on the free list of order \<open>k\<close>,
  taking the buddy off its list and continuing with the lower of the two at order \<open>k + 1\<close>; the
  block left at the end is put at the head of the list of its order. Every buddy address that
  \<open>buddy_free\<close> computes on the way lies in \<open>[base, base + numbytes)\<close>.
\<close>

theorem free_refines_spec:
  assumes inv: "pool_inv c st fl R" and blk: "(a, k) \<in> R"
  shows "\<exists>st'. buddy_free c Pool st (addr st a + of_nat (hdr c)) = Some st' \<and>
           pool_inv c st' (spec_free (kval_m st) fl a k) (R - {(a, k)}) \<and>
           (\<forall>w\<in>set (free_trace c Pool st (addr st a + of_nat (hdr c))).
              unat (base st) \<le> unat w \<and> unat w < unat (base st) + unat (numbytes st))"
proof -
  have ok: "pool_ok c st" using inv by (simp add: pool_inv_def pinv_def)
  from free_ok [OF inv blk] obtain h' where
    f: "buddy_free c Pool st (addr st a + of_nat (hdr c)) = Some (st\<lparr>heap := h'\<rparr>)"
    and p: "pool_inv c (st\<lparr>heap := h'\<rparr>) (spec_free (kval_m st) fl a k) (R - {(a, k)})"
    and t: "\<forall>w\<in>set (free_trace c Pool st (addr st a + of_nat (hdr c))). \<exists>b<2 ^ kval_m st. w = addr st b"
    by blast
  have "\<forall>w\<in>set (free_trace c Pool st (addr st a + of_nat (hdr c))).
          unat (base st) \<le> unat w \<and> unat w < unat (base st) + unat (numbytes st)"
  proof
    fix w assume "w \<in> set (free_trace c Pool st (addr st a + of_nat (hdr c)))"
    with t obtain b where b: "b < 2 ^ kval_m st" "w = addr st b" by blast
    show "unat (base st) \<le> unat w \<and> unat w < unat (base st) + unat (numbytes st)"
      using b(1) by (simp add: b(2) unat_addr [OF ok b(1)] unat_numbytes [OF ok])
  qed
  with f p show ?thesis by blast
qed

theorem free_refines_spec_witness:
  "pool_inv cfg0 m2 (malloc_lists (fresh 20) 20 7) {(0, 7)} \<and> (0, 7) \<in> {(0 :: nat, 7 :: nat)} \<and>
   (\<exists>st'. buddy_free cfg0 Pool m2 0x10000018 = Some st' \<and>
      pool_inv cfg0 st' (spec_free 20 (malloc_lists (fresh 20) 20 7) 0 7) {})"
proof -
  have "(0, 7) \<in> {(0 :: nat, 7 :: nat)}" by simp
  from free_refines_spec [OF m2_malloc(2) this]
  have "\<exists>st'. buddy_free cfg0 Pool m2 0x10000018 = Some st' \<and>
      pool_inv cfg0 st' (spec_free 20 (malloc_lists (fresh 20) 20 7) 0 7) {}"
    by (auto simp: addr_m2 cfg0_fields m2_malloc)
  then show ?thesis using m2_malloc(2) by simp
qed

section \<open>Requests above the capacity\<close>

lemma malloc_over_capacity:
  assumes ok: "cfg_ok c" and big: "2 ^ kval_m st < unat sz" and nw: "unat sz + hdr c < 2 ^ 64"
    and km: "kval_m st + 1 < MAX_K c"
  shows "buddy_malloc c Pool st sz = Some (0, st\<lparr>errno := ENOMEM\<rparr>)"
proof -
  have sz: "sz \<noteq> 0" using big by (auto simp: unat_eq_0 [symmetric])
  have "2 ^ kval_m st < unat sz + hdr c" using big by simp
  from btok_exceeds [OF ok sz nw this km] sz show ?thesis by (rule malloc_too_big [rotated])
qed

text \<open>
  Claim C4, at the largest request. On a fresh arena of \<open>2 ^ 20\<close> bytes \<open>buddy_malloc\<close> is asked
  for \<open>2 ^ 64 - 1\<close> bytes. \<open>btok\<close> adds the header size with wrap-around and answers order 6,
  so the request passes the capacity check and a block of 64 bytes is handed out.
\<close>

theorem malloc_wrapped_request:
  "buddy_init cfg0 Pool m0 1 (Mapped 0x10000000) = Some m1 \<and> numbytes m1 < - 1 \<and>
   btok cfg0 (- 1) = 6 \<and>
   (\<exists>st'. buddy_malloc cfg0 Pool m1 (- 1) = Some (0x10000018, st') \<and>
           hdr_is st' BLOCK_RESERVED (0, 6))"
proof -
  have "\<exists>h' fl'. buddy_malloc cfg0 Pool m1 (- 1) = Some (addr m1 (hd (fresh 20 20)) + of_nat (hdr cfg0), m1\<lparr>heap := h'\<rparr>) \<and>
           pool_inv cfg0 (m1\<lparr>heap := h'\<rparr>) fl' (insert (hd (fresh 20 20), btok cfg0 (- 1)) {}) \<and>
           (hd (fresh 20 20), btok cfg0 (- 1)) \<notin> {} \<and>
           free_bytes cfg0 fl' + 2 ^ btok cfg0 (- 1) = free_bytes cfg0 (fresh 20)"
    by (rule malloc_ok [OF m1_inv]) (simp_all add: btok_cfg0_values m1_fields fresh_def)
  then obtain h' fl' where
    m: "buddy_malloc cfg0 Pool m1 (- 1) = Some (0x10000018, m1\<lparr>heap := h'\<rparr>)"
    and p: "pool_inv cfg0 (m1\<lparr>heap := h'\<rparr>) fl' {(0, 6)}"
    by (auto simp: btok_cfg0_values fresh_def addr_m1 cfg0_fields)
  have "(0, 6) \<in> {(0::nat, 6::nat)}" by simp
  from pool_inv_block(3) [OF p this] have "hdr_is (m1\<lparr>heap := h'\<rparr>) BLOCK_RESERVED (0, 6)" .
  with m have "\<exists>st'. buddy_malloc cfg0 Pool m1 (- 1) = Some (0x10000018, st') \<and>
           hdr_is st' BLOCK_RESERVED (0, 6)" by blast
  moreover have "numbytes m1 < - 1" by (simp add: m1_fields)
  ultimately show ?thesis using m1_init by (simp add: btok_cfg0_values)
qed

section \<open>Set-up\<close>

lemma buddy_init_failed_state:
  assumes c: "cfg_ok c"
  shows "buddy_init c Pool st sz MAP_FAILED =
           Some (st\<lparr>kval_m := init_order c sz, numbytes := 2 ^ init_order c sz,
                    oscalls := oscalls st @ [Mmap (2 ^ init_order c sz), Perror], base := 0\<rparr>)"
proof -
  note r = init_order_range [OF c, of sz]
  have km': "(if sz = 0 then st\<lparr>kval_m := DEFAULT_K c\<rparr>
              else let k = btok c sz; k = if k < MIN_K c then MIN_K c else k;
                       k = if MAX_K c \<le> k then MAX_K c - 1 else k
                   in st\<lparr>kval_m := k\<rparr>) = st\<lparr>kval_m := init_order c sz\<rparr>"
    by (simp add: init_order_def Let_def)
  show ?thesis
    unfolding buddy_init_def km' using r(3) by (simp add: shl1_lt Let_def)
qed

text \<open>
  Claim C6. With a usable configuration, \<open>buddy_init\<close> on a successful reservation at \<open>b\<close>
  returns a state whose \<open>numbytes\<close> is \<open>2 ^ kval_m\<close>; every list head other than that of
  order \<open>kval_m\<close> points to itself in both directions; the head of order \<open>kval_m\<close> and the
  header at \<open>b\<close> point to each other, and that header is marked free with order \<open>kval_m\<close>, so
  the list holds this one block, which spans the arena. If the arena does not wrap around the
  address space, the state is a well-formed arena with nothing handed out. When the
  reservation fails, \<open>buddy_init\<close> returns with \<open>base\<close> null and no header touched.
\<close>

theorem init_arena:
  assumes c: "cfg_ok c" and b: "b \<noteq> 0"
  shows "(\<exists>st'. buddy_init c Pool st sz (Mapped b) = Some st' \<and> base st' = b \<and>
            kval_m st' = init_order c sz \<and>
            numbytes st' = 2 ^ kval_m st' \<and> unat (numbytes st') = 2 ^ kval_m st' \<and>
            (\<forall>i<MAX_K c. i \<noteq> kval_m st' \<longrightarrow>
               next (heap st' (Sent i)) = Sent i \<and> prev (heap st' (Sent i)) = Sent i) \<and>
            next (heap st' (Sent (kval_m st'))) = Addr b \<and>
            prev (heap st' (Sent (kval_m st'))) = Addr b \<and>
            heap st' (Addr b) =
              \<lparr>tag = BLOCK_AVAIL, kval = kval_m st',
                 next = Sent (kval_m st'), prev = Sent (kval_m st')\<rparr> \<and>
            (unat b + 2 ^ kval_m st' \<le> 2 ^ 64 \<longrightarrow> pool_inv c st' (fresh (kval_m st')) {})) \<and>
         (\<exists>st'. buddy_init c Pool st sz MAP_FAILED = Some st' \<and> base st' = 0 \<and>
            heap st' = heap st)"
proof -
  define st' where "st' = init_state c st sz b"
  define km where "km = init_order c sz"
  note r = init_order_range [OF c, of sz, folded km_def]
  note f = init_state_fields [of c st sz b, folded km_def st'_def]
  have i: "buddy_init c Pool st sz (Mapped b) = Some st'"
    unfolding st'_def using c b by (rule buddy_init_mapped)
  have inv: "pool_inv c st' (fresh km) {}" if "unat b + 2 ^ km \<le> 2 ^ 64"
    using init_pool_inv [OF c b, of sz st] that by (simp add: km_def st'_def)
  have "base st' = b \<and> kval_m st' = km \<and>
        numbytes st' = 2 ^ kval_m st' \<and> unat (numbytes st') = 2 ^ kval_m st' \<and>
        (\<forall>i<MAX_K c. i \<noteq> kval_m st' \<longrightarrow>
           next (heap st' (Sent i)) = Sent i \<and> prev (heap st' (Sent i)) = Sent i) \<and>
        next (heap st' (Sent (kval_m st'))) = Addr b \<and>
        prev (heap st' (Sent (kval_m st'))) = Addr b \<and>
        heap st' (Addr b) =
          \<lparr>tag = BLOCK_AVAIL, kval = kval_m st',
             next = Sent (kval_m st'), prev = Sent (kval_m st')\<rparr> \<and>
        (unat b + 2 ^ kval_m st' \<le> 2 ^ 64 \<longrightarrow> pool_inv c st' (fresh (kval_m st')) {})"
    using r inv by (simp add: f init_heap_def unat_pow2)
  with i have A: "\<exists>st'. buddy_init c Pool st sz (Mapped b) = Some st' \<and> base st' = b \<and>
            kval_m st' = init_order c sz \<and>
            numbytes st' = 2 ^ kval_m st' \<and> unat (numbytes st') = 2 ^ kval_m st' \<and>
            (\<forall>i<MAX_K c. i \<noteq> kval_m st' \<longrightarrow>
               next (heap st' (Sent i)) = Sent i \<and> prev (heap st' (Sent i)) = Sent i) \<and>
            next (heap st' (Sent (kval_m st'))) = Addr b \<and>
            prev (heap st' (Sent (kval_m st'))) = Addr b \<and>
            heap st' (Addr b) =
              \<lparr>tag = BLOCK_AVAIL, kval = kval_m st',
                 next = Sent (kval_m st'), prev = Sent (kval_m st')\<rparr> \<and>
            (unat b + 2 ^ kval_m st' \<le> 2 ^ 64 \<longrightarrow> pool_inv c st' (fresh (kval_m st')) {})"
    unfolding km_def by blast
  have B: "\<exists>st'. buddy_init c Pool st sz MAP_FAILED = Some st' \<and> base st' = 0 \<and>
            heap st' = heap st"
    by (simp add: buddy_init_failed_state [OF c])
  from A B show ?thesis by (rule conjI)
qed

theorem init_arena_witness:
  "cfg_ok cfg0 \<and> (0x10000000 :: 64 word) \<noteq> 0 \<and>
   buddy_init cfg0 Pool m0 1 (Mapped 0x10000000) = Some m1 \<and> base m1 = 0x10000000 \<and>
   kval_m m1 = 20 \<and> numbytes m1 = 2 ^ 20 \<and>
   next (heap m1 (Sent 20)) = Addr 0x10000000 \<and>
   next (heap m1 (Sent 19)) = Sent 19 \<and> prev (heap m1 (Sent 19)) = Sent 19 \<and>
   heap m1 (Addr 0x10000000) = \<lparr>tag = BLOCK_AVAIL, kval = 20, next = Sent 20, prev = Sent 20\<rparr> \<and>
   pool_inv cfg0 m1 (fresh 20) {} \<and>
   (\<exists>st'. buddy_init cfg0 Pool m0 1 MAP_FAILED = Some st' \<and> base st' = 0)"
proof -
  have n: "(0x10000000 :: 64 word) \<noteq> 0" by simp
  from init_arena [OF cfg0_ok n, of m0 1] show ?thesis
    using cfg0_ok by (auto simp: m1_init m1_fields cfg0_fields)
qed

section \<open>Resize\<close>

text \<open>
  Claim C5 says that a resize to any size that still fits the block returns the same pointer
  and leaves the block as it is. Size 0 fits every block, and \<open>buddy_realloc\<close> frees the block
  and returns null: here for the block of order 7 at \<open>0x10000018\<close>.
\<close>

theorem realloc_zero_counterexample:
  "buddy_malloc cfg0 Pool m1 100 = Some (0x10000018, m2) \<and>
   kval (heap m2 (Addr (0x10000018 - of_nat (hdr cfg0)))) = 7 \<and>
   (0 :: 64 word) \<le> 2 ^ 7 - of_nat (hdr cfg0) \<and> (0x10000018 :: 64 word) \<noteq> 0 \<and>
   (\<exists>st'. buddy_realloc cfg0 Pool m2 0x10000018 0 = Some (0, st'))"
proof -
  have b: "(0, 7) \<in> {(0 :: nat, 7 :: nat)}" by simp
  have "kval (heap m2 (Addr (addr m2 0))) = 7"
    using realloc_prelude(3) [OF m2_malloc(2) b] .
  moreover have "\<exists>st'. buddy_realloc cfg0 Pool m2 (addr m2 0 + of_nat (hdr cfg0)) 0 = Some (0, st')"
    using realloc_zero [OF m2_malloc(2) b] .
  ultimately show ?thesis using m2_malloc(1) by (simp add: addr_m2 cfg0_fields)
qed

text \<open>
  Claim C5, amended. For a block handed out with order \<open>k\<close> in a well-formed arena and a new
  size \<open>sz\<close> for which \<open>sz\<close> plus the header size does not wrap around, \<open>buddy_realloc\<close>
  always returns. For \<open>sz = 0\<close> it returns null and the state is the one \<open>buddy_free\<close> leaves:
  the arena is well-formed with the block given back. For \<open>0 < sz \<le> 2 ^ k - sizeof(struct avail)\<close>
  it returns the same pointer and the state is unchanged. Otherwise, if \<open>buddy_malloc\<close> can
  serve \<open>sz\<close>, it returns the non-null pointer of a new block of order \<open>btok sz\<close>, which has
  room for the header and \<open>sz\<close> bytes; the first \<open>2 ^ k - sizeof(struct avail)\<close> bytes behind the
  new pointer are those behind the old one; and the arena is well-formed with the new block
  handed out and the old one given back, so the copy has not touched the header of any block.
  If \<open>buddy_malloc\<close> cannot serve \<open>sz\<close>, it returns null, and only \<open>errno\<close> has changed.

  The headers are the only other thing that the functions write. Read as headers, the copied
  bytes behind the new pointer are at the end what the old payload was at the start: no
  header was written into the old payload before the copy or into the new one after it. And
  nothing has been written inside any other block that is handed out.
\<close>

theorem realloc_spec:
  assumes inv: "pool_inv c st fl R" and blk: "(a, k) \<in> R" and nw: "unat sz + hdr c < 2 ^ 64"
  shows "\<exists>q st'. buddy_realloc c Pool st (addr st a + of_nat (hdr c)) sz = Some (q, st') \<and>
     (if sz = 0 then
        q = 0 \<and> buddy_free c Pool st (addr st a + of_nat (hdr c)) = Some st' \<and>
        pool_inv c st' (spec_free (kval_m st) fl a k) (R - {(a, k)}) \<and>
        same_in c st (R - {(a, k)}) (heap st) (heap st')
      else if unat sz \<le> 2 ^ k - hdr c then q = addr st a + of_nat (hdr c) \<and> st' = st
      else if \<exists>i. btok c sz \<le> i \<and> i \<le> kval_m st \<and> fl i \<noteq> [] then
        q \<noteq> 0 \<and> unat sz + hdr c \<le> 2 ^ btok c sz \<and>
        (\<exists>a' fl'. q = addr st a' + of_nat (hdr c) \<and> (a', btok c sz) \<notin> R \<and>
                  pool_inv c st' fl' (insert (a', btok c sz) R - {(a, k)})) \<and>
        (\<forall>i<2 ^ k - hdr c.
           bytes st' (q + of_nat i) = bytes st (addr st a + of_nat (hdr c) + of_nat i)) \<and>
        (\<forall>i. i + hdr c \<le> 2 ^ k - hdr c \<longrightarrow>
           heap st' (Addr (q + of_nat i)) = heap st (Addr (addr st a + of_nat (hdr c) + of_nat i))) \<and>
        same_in c st (R - {(a, k)}) (heap st) (heap st')
      else q = 0 \<and> st' = st\<lparr>errno := ENOMEM\<rparr>)"
proof -
  let ?ptr = "addr st a + of_nat (hdr c)"
  let ?old = "2 ^ k - of_nat (hdr c) :: 64 word"
  note pre = realloc_prelude [OF inv blk]
  have cmp: "sz \<le> ?old \<longleftrightarrow> unat sz \<le> 2 ^ k - hdr c"
    by (simp add: word_le_nat_alt pre(5))
  have cok: "cfg_ok c" using inv by (simp add: pool_inv_def pinv_def pool_ok_def)
  then have h0: "0 < hdr c" by (simp add: cfg_ok_def)
  show ?thesis
  proof (cases "sz = 0")
    case True
    from free_ok [OF inv blk] obtain h' where
      f: "buddy_free c Pool st ?ptr = Some (st\<lparr>heap := h'\<rparr>)"
      and p: "pool_inv c (st\<lparr>heap := h'\<rparr>) (spec_free (kval_m st) fl a k) (R - {(a, k)})"
      by blast
    have "same_in c st (R - {(a, k)}) (heap st) (heap (st\<lparr>heap := h'\<rparr>))"
      using inv blk f by (rule free_same)
    moreover have "buddy_realloc c Pool st ?ptr sz = Some (0, st\<lparr>heap := h'\<rparr>)"
      using True f pre(1) by (simp add: buddy_realloc_def)
    ultimately show ?thesis using True f p by simp
  next
    case False
    note sz = False
    show ?thesis
    proof (cases "unat sz \<le> 2 ^ k - hdr c")
      case True
      have "buddy_realloc c Pool st ?ptr sz = Some (?ptr, st)"
        using pre(1-4) sz True cmp by (simp add: buddy_realloc_def Let_def)
      then show ?thesis using sz True by simp
    next
      case False
      note grow = False
      show ?thesis
      proof (cases "\<exists>i. btok c sz \<le> i \<and> i \<le> kval_m st \<and> fl i \<noteq> []")
        case False
        then have "\<forall>j. btok c sz \<le> j \<and> j \<le> kval_m st \<longrightarrow> fl j = []" by blast
        from malloc_exhausted [OF inv sz this]
        have "buddy_realloc c Pool st ?ptr sz = Some (0, st\<lparr>errno := ENOMEM\<rparr>)"
          using pre(1-4) sz grow cmp by (simp add: buddy_realloc_def Let_def)
        then show ?thesis using sz grow False by simp
      next
        case True
        then obtain i where i: "btok c sz \<le> i" "i \<le> kval_m st" "fl i \<noteq> []"
          "\<forall>j. btok c sz \<le> j \<and> j < i \<longrightarrow> fl j = []"
          by (rule least_free_list)
        define k2 where "k2 = btok c sz"
        from malloc_ok [OF inv sz i] obtain h1 fl1 a' where
          m: "buddy_malloc c Pool st sz = Some (addr st a' + of_nat (hdr c), st\<lparr>heap := h1\<rparr>)"
          and p1: "pool_inv c (st\<lparr>heap := h1\<rparr>) fl1 (insert (a', k2) R)"
          and n: "(a', k2) \<notin> R"
          unfolding k2_def by blast
        let ?q = "addr st a' + of_nat (hdr c)"
        let ?st1 = "st\<lparr>heap := h1\<rparr>"
        let ?R1 = "insert (a', k2) R"
        have a'in: "(a', k2) \<in> ?R1" and ain: "(a, k) \<in> ?R1"
          using blk by simp_all
        have ne: "(a, k) \<noteq> (a', k2)" using blk n by auto
        have q0: "?q \<noteq> 0" using pool_inv_block(5) [OF p1 a'in] by simp
        have s1: "same_in c st R (heap st) h1" using malloc_same [OF inv m] by simp
        \<comment> \<open>the new block has room for the request, so it is larger than the old one\<close>
        have fit: "unat sz + hdr c \<le> 2 ^ k2"
          unfolding k2_def using inv blk sz nw i(1-3) by (rule served_fits)
        have "2 ^ k < unat sz + hdr c" using grow pre(7) by simp
        then have lt: "(2::nat) ^ k < 2 ^ k2" using fit by (rule less_le_trans)
        then have kk: "k \<le> k2" using pow2_less_D [of k k2] by simp
        \<comment> \<open>the copy\<close>
        from memcpy_payload [OF p1 ain a'in ne kk] obtain st2 where
          mc: "memcpy c ?st1 ?q ?ptr ?old = Some st2"
          and p2: "pool_inv c st2 fl1 ?R1"
          and b2: "base st2 = base st" and km2: "kval_m st2 = kval_m st"
          and s2: "same_in c st (?R1 - {(a', k2)}) h1 (heap st2)"
          and cp: "\<forall>j<2 ^ k - hdr c. bytes st2 (?q + of_nat j) = bytes st (?ptr + of_nat j)"
          by (auto simp: addr_def)
        have R1: "?R1 - {(a', k2)} = R" using n by auto
        \<comment> \<open>the old block is given back\<close>
        from free_ok [OF p2 ain] obtain h3 where
          f: "buddy_free c Pool st2 (addr st2 a + of_nat (hdr c)) = Some (st2\<lparr>heap := h3\<rparr>)"
          and p3: "pool_inv c (st2\<lparr>heap := h3\<rparr>) (spec_free (kval_m st2) fl1 a k) (?R1 - {(a, k)})"
          by blast
        let ?st3 = "st2\<lparr>heap := h3\<rparr>"
        have "same_in c st2 (?R1 - {(a, k)}) (heap st2) (heap ?st3)"
          using p2 ain f by (rule free_same)
        then have s3: "same_in c st (?R1 - {(a, k)}) (heap st2) h3"
          by (simp add: same_in_base [OF b2])
        have f': "buddy_free c Pool st2 ?ptr = Some ?st3" using f b2 by (simp add: addr_def)
        have res: "buddy_realloc c Pool st ?ptr sz = Some (?q, ?st3)"
          using pre(1-4) sz grow cmp m q0 mc f' by (simp add: buddy_realloc_def Let_def)
        have cp3: "\<forall>j<2 ^ k - hdr c. bytes ?st3 (?q + of_nat j) = bytes st (?ptr + of_nat j)"
          using cp by simp
        \<comment> \<open>the other blocks that are handed out\<close>
        have "same_in c st (R - {(a, k)}) (heap st) h1" "same_in c st (R - {(a, k)}) h1 (heap st2)"
          "same_in c st (R - {(a, k)}) (heap st2) h3"
          using s1 s2 s3 by (auto simp: R1 intro: same_in_mono [rotated])
        then have oth: "same_in c st (R - {(a, k)}) (heap st) (heap ?st3)"
          by (auto intro: same_in_trans)
        \<comment> \<open>the headers in the copy\<close>
        have hc: "heap ?st3 (Addr (?q + of_nat j)) = heap st (Addr (?ptr + of_nat j))"
          if j: "j + hdr c \<le> 2 ^ k - hdr c" for j
        proof -
          have "h1 (Addr (addr st (a + hdr c + j))) = heap st (Addr (addr st (a + hdr c + j)))"
            using s1 blk by (rule same_inD) (use j pre(7) in simp_all)
          then have e1: "h1 (Addr (?ptr + of_nat j)) = heap st (Addr (?ptr + of_nat j))"
            by (simp add: addr_def add.assoc)
          have "j + hdr c \<le> unat ?old" using j by (simp add: pre(5))
          with mc h0 have e2: "heap st2 (Addr (?q + of_nat j)) = heap ?st1 (Addr (?ptr + of_nat j))"
            by (rule memcpy_overwrites)
          have "(a', k2) \<in> ?R1 - {(a, k)}" using ne by auto
          moreover have "fst (a', k2) \<le> a' + hdr c + j" by simp
          moreover have "hdr c + j + hdr c \<le> 2 ^ k2" using j pre(7) lt by linarith
          then have "a' + hdr c + j + hdr c \<le> fst (a', k2) + 2 ^ snd (a', k2)" by simp
          ultimately have "h3 (Addr (addr st (a' + hdr c + j))) = heap st2 (Addr (addr st (a' + hdr c + j)))"
            by (rule same_inD [OF s3])
          then have e3: "h3 (Addr (?q + of_nat j)) = heap st2 (Addr (?q + of_nat j))"
            by (simp add: addr_def add.assoc)
          show ?thesis using e1 e2 e3 by simp
        qed
        have "\<exists>a'' fl'. ?q = addr st a'' + of_nat (hdr c) \<and> (a'', k2) \<notin> R \<and>
                pool_inv c ?st3 fl' (insert (a'', k2) R - {(a, k)})"
          using n p3 by blast
        then show ?thesis using res q0 cp3 fit True grow sz oth hc unfolding k2_def by simp
      qed
    qed
  qed
qed

theorem realloc_spec_witness:
  "pool_inv cfg0 m2 (malloc_lists (fresh 20) 20 7) {(0, 7)} \<and> (0, 7) \<in> {(0 :: nat, 7 :: nat)} \<and>
   unat (0 :: 64 word) + hdr cfg0 < 2 ^ 64 \<and>
   (\<exists>st'. buddy_realloc cfg0 Pool m2 0x10000018 0 = Some (0, st') \<and>
      buddy_free cfg0 Pool m2 0x10000018 = Some st' \<and>
      pool_inv cfg0 st' (spec_free (kval_m m2) (malloc_lists (fresh 20) 20 7) 0 7) ({(0, 7)} - {(0, 7)}) \<and>
      same_in cfg0 m2 ({(0, 7)} - {(0, 7)}) (heap m2) (heap st')) \<and>
   unat (50 :: 64 word) + hdr cfg0 < 2 ^ 64 \<and>
   buddy_realloc cfg0 Pool m2 0x10000018 50 = Some (0x10000018, m2) \<and>
   unat (200 :: 64 word) + hdr cfg0 < 2 ^ 64 \<and>
   (\<exists>q st'. buddy_realloc cfg0 Pool m2 0x10000018 200 = Some (q, st') \<and> q \<noteq> 0 \<and>
      unat (200 :: 64 word) + hdr cfg0 \<le> 2 ^ btok cfg0 200 \<and>
      (\<exists>a' fl'. q = addr m2 a' + of_nat (hdr cfg0) \<and>
         pool_inv cfg0 st' fl' (insert (a', btok cfg0 200) {(0, 7)} - {(0, 7)})) \<and>
      bytes st' q = bytes m2 0x10000018 \<and>
      heap st' (Addr q) = heap m2 (Addr 0x10000018) \<and>
      same_in cfg0 m2 ({(0, 7)} - {(0, 7)}) (heap m2) (heap st'))"
proof -
  have b: "(0, 7) \<in> {(0 :: nat, 7 :: nat)}" by simp
  have n: "unat (0 :: 64 word) + hdr cfg0 < 2 ^ 64" "unat (50 :: 64 word) + hdr cfg0 < 2 ^ 64"
    "unat (200 :: 64 word) + hdr cfg0 < 2 ^ 64"
    by (simp_all add: cfg0_fields)
  have ptr: "addr m2 0 + of_nat (hdr cfg0) = 0x10000018" by (simp add: addr_m2 cfg0_fields)
  \<comment> \<open>size 0: the block is given back\<close>
  have z: "(0 :: 64 word) = 0" by simp
  have "\<exists>q0 s0.
      buddy_realloc cfg0 Pool m2 (addr m2 0 + of_nat (hdr cfg0)) 0 = Some (q0, s0) \<and>
      q0 = 0 \<and> buddy_free cfg0 Pool m2 (addr m2 0 + of_nat (hdr cfg0)) = Some s0 \<and>
      pool_inv cfg0 s0 (spec_free (kval_m m2) (malloc_lists (fresh 20) 20 7) 0 7) ({(0, 7)} - {(0, 7)}) \<and>
      same_in cfg0 m2 ({(0, 7)} - {(0, 7)}) (heap m2) (heap s0)"
    using realloc_spec [OF m2_malloc(2) b n(1)] unfolding if_P [OF z] .
  then obtain q0 s0 where
    x: "buddy_realloc cfg0 Pool m2 (addr m2 0 + of_nat (hdr cfg0)) 0 = Some (q0, s0)"
    "q0 = 0" "buddy_free cfg0 Pool m2 (addr m2 0 + of_nat (hdr cfg0)) = Some s0"
    "pool_inv cfg0 s0 (spec_free (kval_m m2) (malloc_lists (fresh 20) 20 7) 0 7) ({(0, 7)} - {(0, 7)})"
    "same_in cfg0 m2 ({(0, 7)} - {(0, 7)}) (heap m2) (heap s0)"
    by (elim exE conjE)
  have "buddy_realloc cfg0 Pool m2 0x10000018 0 = Some (0, s0)"
    "buddy_free cfg0 Pool m2 0x10000018 = Some s0"
    using x(1,2,3) by (simp_all only: ptr)
  with x(4,5) have Z: "\<exists>st'. buddy_realloc cfg0 Pool m2 0x10000018 0 = Some (0, st') \<and>
      buddy_free cfg0 Pool m2 0x10000018 = Some st' \<and>
      pool_inv cfg0 st' (spec_free (kval_m m2) (malloc_lists (fresh 20) 20 7) 0 7) ({(0, 7)} - {(0, 7)}) \<and>
      same_in cfg0 m2 ({(0, 7)} - {(0, 7)}) (heap m2) (heap st')"
    by (intro exI conjI)
  \<comment> \<open>50 bytes fit the block of order 7\<close>
  have nz: "(50 :: 64 word) \<noteq> 0" "(200 :: 64 word) \<noteq> 0" by simp_all
  have fits: "unat (50 :: 64 word) \<le> 2 ^ 7 - hdr cfg0" by (simp add: cfg0_fields)
  have "\<exists>q1 s1. buddy_realloc cfg0 Pool m2 (addr m2 0 + of_nat (hdr cfg0)) 50 = Some (q1, s1) \<and>
      q1 = addr m2 0 + of_nat (hdr cfg0) \<and> s1 = m2"
    using realloc_spec [OF m2_malloc(2) b n(2)] unfolding if_not_P [OF nz(1)] if_P [OF fits] .
  then obtain q1 s1 where
    "buddy_realloc cfg0 Pool m2 (addr m2 0 + of_nat (hdr cfg0)) 50 = Some (q1, s1)"
    "q1 = addr m2 0 + of_nat (hdr cfg0)" "s1 = m2"
    by (elim exE conjE)
  then have A: "buddy_realloc cfg0 Pool m2 0x10000018 50 = Some (0x10000018, m2)"
    by (simp only: ptr)
  \<comment> \<open>200 bytes do not, and list 8 has a block\<close>
  have grows: "\<not> unat (200 :: 64 word) \<le> 2 ^ 7 - hdr cfg0" by (simp add: cfg0_fields)
  have "btok cfg0 200 \<le> 8 \<and> 8 \<le> kval_m m2 \<and> malloc_lists (fresh 20) 20 7 8 \<noteq> []"
    by (simp add: btok_cfg0_values m2_malloc m2_lists)
  then have ex: "\<exists>i. btok cfg0 200 \<le> i \<and> i \<le> kval_m m2 \<and> malloc_lists (fresh 20) 20 7 i \<noteq> []"
    by (rule exI)
  have "\<exists>q st'. buddy_realloc cfg0 Pool m2 (addr m2 0 + of_nat (hdr cfg0)) 200 = Some (q, st') \<and>
      q \<noteq> 0 \<and> unat (200 :: 64 word) + hdr cfg0 \<le> 2 ^ btok cfg0 200 \<and>
      (\<exists>a' fl'. q = addr m2 a' + of_nat (hdr cfg0) \<and> (a', btok cfg0 200) \<notin> {(0, 7)} \<and>
         pool_inv cfg0 st' fl' (insert (a', btok cfg0 200) {(0, 7)} - {(0, 7)})) \<and>
      (\<forall>i<2 ^ 7 - hdr cfg0.
         bytes st' (q + of_nat i) = bytes m2 (addr m2 0 + of_nat (hdr cfg0) + of_nat i)) \<and>
      (\<forall>i. i + hdr cfg0 \<le> 2 ^ 7 - hdr cfg0 \<longrightarrow>
         heap st' (Addr (q + of_nat i)) = heap m2 (Addr (addr m2 0 + of_nat (hdr cfg0) + of_nat i))) \<and>
      same_in cfg0 m2 ({(0, 7)} - {(0, 7)}) (heap m2) (heap st')"
    using realloc_spec [OF m2_malloc(2) b n(3)]
    unfolding if_not_P [OF nz(2)] if_not_P [OF grows] if_P [OF ex] .
  then obtain q st' a' fl' where
    r: "buddy_realloc cfg0 Pool m2 (addr m2 0 + of_nat (hdr cfg0)) 200 = Some (q, st')"
    and q0: "q \<noteq> 0" and ft: "unat (200 :: 64 word) + hdr cfg0 \<le> 2 ^ btok cfg0 200"
    and q: "q = addr m2 a' + of_nat (hdr cfg0)"
      "pool_inv cfg0 st' fl' (insert (a', btok cfg0 200) {(0, 7)} - {(0, 7)})"
    and cp: "\<forall>i<2 ^ 7 - hdr cfg0.
         bytes st' (q + of_nat i) = bytes m2 (addr m2 0 + of_nat (hdr cfg0) + of_nat i)"
    and hc: "\<forall>i. i + hdr cfg0 \<le> 2 ^ 7 - hdr cfg0 \<longrightarrow>
         heap st' (Addr (q + of_nat i)) = heap m2 (Addr (addr m2 0 + of_nat (hdr cfg0) + of_nat i))"
    and oth: "same_in cfg0 m2 ({(0, 7)} - {(0, 7)}) (heap m2) (heap st')"
    by (elim exE conjE)
  have pos: "0 < 2 ^ 7 - hdr cfg0" "0 + hdr cfg0 \<le> 2 ^ 7 - hdr cfg0" by (simp_all add: cfg0_fields)
  from cp [rule_format, OF pos(1)] have "bytes st' (q + 0) = bytes m2 (0x10000018 + 0)"
    by (simp only: ptr semiring_1_class.of_nat_0)
  then have c: "bytes st' q = bytes m2 0x10000018" by simp
  from hc [rule_format, OF pos(2)] have "heap st' (Addr (q + 0)) = heap m2 (Addr (0x10000018 + 0))"
    by (simp only: ptr semiring_1_class.of_nat_0)
  then have c2: "heap st' (Addr q) = heap m2 (Addr 0x10000018)" by simp
  have r1: "buddy_realloc cfg0 Pool m2 0x10000018 200 = Some (q, st')"
    using r by (simp only: ptr)
  have E: "\<exists>a' fl'. q = addr m2 a' + of_nat (hdr cfg0) \<and>
         pool_inv cfg0 st' fl' (insert (a', btok cfg0 200) {(0, 7)} - {(0, 7)})"
    using q by (intro exI conjI)
  have B: "\<exists>q st'. buddy_realloc cfg0 Pool m2 0x10000018 200 = Some (q, st') \<and> q \<noteq> 0 \<and>
      unat (200 :: 64 word) + hdr cfg0 \<le> 2 ^ btok cfg0 200 \<and>
      (\<exists>a' fl'. q = addr m2 a' + of_nat (hdr cfg0) \<and>
         pool_inv cfg0 st' fl' (insert (a', btok cfg0 200) {(0, 7)} - {(0, 7)})) \<and>
      bytes st' q = bytes m2 0x10000018 \<and>
      heap st' (Addr q) = heap m2 (Addr 0x10000018) \<and>
      same_in cfg0 m2 ({(0, 7)} - {(0, 7)}) (heap m2) (heap st')"
    apply (rule exI [where x = q])
    apply (rule exI [where x = st'])
    apply (intro conjI r1 q0 ft E c c2 oth)
    done
  from m2_malloc(2) b n(1) Z n(2) A n(3) B show ?thesis by (intro conjI)
qed
end
